theory Spec2Isabelle
  imports Main "HOL-Library.Word"
begin

section \<open>Memory model\<close>

text \<open>
  The library of \<^verbatim>\<open>src/src/Tlist.c\<close> and \<^verbatim>\<open>src/src/Titerator.c\<close> works on
  structures allocated with \<^verbatim>\<open>malloc\<close> and linked by pointers, and several of its
  properties depend on which pointer aliases which structure. The embedding therefore keeps
  an explicit store. A pointer is an optional address, \<open>None\<close> being \<^verbatim>\<open>NULL\<close>.
\<close>

type_synonym addr = nat
type_synonym ptr = "addr option"

text \<open>The enumeration \<^verbatim>\<open>Type\<close> of \<^verbatim>\<open>src/include/Tlist.h\<close>; its member \<^verbatim>\<open>INT\<close> is
  written \<open>INT_t\<close>, the plain name being taken by the notation for intersections.\<close>

datatype Type = T | INT_t | STRING | FLOAT | DOUBLE

text \<open>
  The bit patterns of a C \<^verbatim>\<open>float\<close> and \<^verbatim>\<open>double\<close>. The library only copies such
  values and converts between the two widths; the conversions are parameters of the
  operations that perform them (\<open>d2f\<close> for the cast \<^verbatim>\<open>(float)\<close> of a double, \<open>f2d\<close> for
  the promotion of a float passed to a variadic function).
\<close>

type_synonym cfloat = "32 word"
type_synonym cdouble = "64 word"

text \<open>
  What a block of value storage holds: the \<^verbatim>\<open>int\<close>, \<^verbatim>\<open>float\<close> or \<^verbatim>\<open>double\<close> copied
  into it by \<^verbatim>\<open>memcpy\<close>, or the characters of a C string before its terminator.
\<close>

datatype cell = IntC "32 word" | FloatC cfloat | DoubleC cdouble | StrC string

text \<open>\<^verbatim>\<open>struct Node\<close>: the value pointer \<^verbatim>\<open>_val\<close> and the link \<^verbatim>\<open>_nextNode\<close>.\<close>

record Node =
  n_val :: ptr
  n_nextNode :: ptr

text \<open>
  The state fields of \<^verbatim>\<open>struct Lista\<close>: \<^verbatim>\<open>_head\<close>, \<^verbatim>\<open>_tail\<close>, \<^verbatim>\<open>_type\<close>,
  \<^verbatim>\<open>_size\<close> and \<^verbatim>\<open>_length\<close>. The method pointers are set once by \<^verbatim>\<open>newList\<close> to the
  functions of the same name and are not stored; a call through one of them is a call of
  that function.
\<close>

record Lista =
  l_head :: ptr
  l_tail :: ptr
  l_type :: Type
  l_size :: nat
  l_length :: int

text \<open>\<^verbatim>\<open>struct TIterator\<close>: \<^verbatim>\<open>_list\<close>, \<^verbatim>\<open>_current\<close> and \<^verbatim>\<open>_index\<close>.\<close>

record TIterator =
  i_list :: ptr
  i_current :: ptr
  i_index :: int

text \<open>
  The lines the library writes to \<^verbatim>\<open>stderr\<close> on the paths that return to the caller:
  the name of the reporting function and the numbers printed in the message.
\<close>

datatype diag =
    NullList string
  | NegativeIndex string int
  | OutOfBounds string int int
  | NoMoreElements

text \<open>
  How a call ends when it does not return: \<^verbatim>\<open>exit(EXIT_FAILURE)\<close>, a read or write
  through \<^verbatim>\<open>NULL\<close>, or any other undefined behaviour of C (a pointer to storage that is
  not allocated, a variadic argument of the wrong type, signed overflow).
\<close>

datatype error = ExitFailure | NullDeref | Undefined

text \<open>
  The store: one map per kind of structure, all sharing one address space. \<open>brk\<close> is the
  next address \<^verbatim>\<open>malloc\<close> hands out (addresses are not reused after \<^verbatim>\<open>free\<close>), and
  \<open>avail\<close> is the number of allocations that still succeed before \<^verbatim>\<open>malloc\<close> returns
  \<^verbatim>\<open>NULL\<close>. \<open>stderr\<close> collects the diagnostics written so far.
\<close>

record heap =
  list_at :: "addr \<Rightarrow> Lista option"
  node_at :: "addr \<Rightarrow> Node option"
  iter_at :: "addr \<Rightarrow> TIterator option"
  cell_at :: "addr \<Rightarrow> cell option"
  brk :: addr
  avail :: nat
  stderr :: "diag list"

definition INT_MAX :: int where
  "INT_MAX = 2147483647"

definition INT_MIN :: int where
  "INT_MIN = - 2147483648"

definition malloc :: "heap \<Rightarrow> (addr \<times> heap) option" where
  "malloc h =
     (if avail h = 0 then None
      else Some (brk h, h\<lparr>brk := Suc (brk h), avail := avail h - 1\<rparr>))"

definition report :: "diag \<Rightarrow> heap \<Rightarrow> heap" where
  "report d h = h\<lparr>stderr := stderr h @ [d]\<rparr>"

text \<open>\<^verbatim>\<open>free(p)\<close> on value storage: nothing for \<^verbatim>\<open>NULL\<close>, undefined for a block that
  is not allocated.\<close>

definition free_val :: "ptr \<Rightarrow> heap \<Rightarrow> error + heap" where
  "free_val p h =
     (case p of
        None \<Rightarrow> Inr h
      | Some v \<Rightarrow>
          (case cell_at h v of
             None \<Rightarrow> Inl Undefined
           | Some c \<Rightarrow> Inr (h\<lparr>cell_at := (cell_at h)(v := None)\<rparr>)))"

text \<open>
  A \<^verbatim>\<open>void *\<close> argument of \<^verbatim>\<open>newNode\<close>: the address of a local variable of the caller
  holding a value (\<^verbatim>\<open>&val\<close>), or a pointer into the store.
\<close>

datatype vptr = Local cell | Ptr ptr

text \<open>
  The argument a caller passes in the variadic position of \<^verbatim>\<open>push\<close>, \<^verbatim>\<open>set\<close> and
  \<^verbatim>\<open>insert\<close>, after the default argument promotions: an \<^verbatim>\<open>int\<close>, a \<^verbatim>\<open>double\<close>, or a
  pointer (\<^verbatim>\<open>char *\<close> or \<^verbatim>\<open>void *\<close>). Reading it with \<^verbatim>\<open>va_arg\<close> at another type is
  undefined.
\<close>

datatype vararg = IntArg "32 word" | DoubleArg cdouble | PtrArg ptr

text \<open>The widths \<^verbatim>\<open>newList\<close> stores in \<^verbatim>\<open>_size\<close>, on an LP64 platform.\<close>

fun sizeof :: "Type \<Rightarrow> nat" where
  "sizeof INT_t = 4"
| "sizeof STRING = 8"
| "sizeof DOUBLE = 8"
| "sizeof FLOAT = 4"
| "sizeof T = 8"

section \<open>The list: \<^verbatim>\<open>Tlist.c\<close>\<close>

definition newList :: "Type \<Rightarrow> heap \<Rightarrow> error + (addr \<times> heap)" where
  "newList type h =
     (case malloc h of
        None \<Rightarrow> Inl ExitFailure
      | Some (this, h1) \<Rightarrow>
          Inr (this, h1\<lparr>list_at := (list_at h1)(this \<mapsto>
                 \<lparr>l_head = None, l_tail = None, l_type = type,
                  l_size = sizeof type, l_length = 0\<rparr>)\<rparr>))"

definition newNode :: "vptr \<Rightarrow> nat \<Rightarrow> Type \<Rightarrow> heap \<Rightarrow> error + (addr \<times> heap)" where
  "newNode val sz type h =
     (case malloc h of
        None \<Rightarrow> Inl ExitFailure
      | Some (node, h1) \<Rightarrow>
          if type = STRING then
            (case val of
               Ptr None \<Rightarrow> Inl ExitFailure
             | Ptr (Some p) \<Rightarrow>
                 (case cell_at h1 p of
                    Some (StrC s) \<Rightarrow>
                      (case malloc h1 of
                         None \<Rightarrow> Inl ExitFailure
                       | Some (v, h2) \<Rightarrow>
                           Inr (node, h2\<lparr>cell_at := (cell_at h2)(v \<mapsto> StrC s),
                                  node_at := (node_at h2)(node \<mapsto>
                                    \<lparr>n_val = Some v, n_nextNode = None\<rparr>)\<rparr>))
                  | _ \<Rightarrow> Inl Undefined)
             | Local c \<Rightarrow> Inl Undefined)
          else if type = T then
            (case val of
               Ptr p \<Rightarrow>
                 Inr (node, h1\<lparr>node_at := (node_at h1)(node \<mapsto>
                        \<lparr>n_val = p, n_nextNode = None\<rparr>)\<rparr>)
             | Local c \<Rightarrow> Inl Undefined)
          else
            (case malloc h1 of
               None \<Rightarrow> Inl ExitFailure
             | Some (v, h2) \<Rightarrow>
                 (case val of
                    Local c \<Rightarrow>
                      Inr (node, h2\<lparr>cell_at := (cell_at h2)(v \<mapsto> c),
                             node_at := (node_at h2)(node \<mapsto>
                               \<lparr>n_val = Some v, n_nextNode = None\<rparr>)\<rparr>)
                  | Ptr None \<Rightarrow> Inl NullDeref
                  | Ptr (Some p) \<Rightarrow>
                      (case cell_at h2 p of
                         None \<Rightarrow> Inl Undefined
                       | Some c \<Rightarrow>
                           Inr (node, h2\<lparr>cell_at := (cell_at h2)(v \<mapsto> c),
                                  node_at := (node_at h2)(node \<mapsto>
                                    \<lparr>n_val = Some v, n_nextNode = None\<rparr>)\<rparr>)))))"

text \<open>
  \<^verbatim>\<open>destroyList\<close>. Its loop frees one node per round and follows the links until
  \<^verbatim>\<open>NULL\<close>; nothing in the type of the store bounds the length of a chain of nodes, so
  the result is optional, \<open>None\<close> for a call that does not return. (\<^verbatim>\<open>print\<close> and
  \<^verbatim>\<open>foreach\<close> only read the list, the first writing to \<^verbatim>\<open>stdout\<close>, the second
  calling a function of the caller on each value; they are not part of the model.)
\<close>

partial_function (option) destroy_loop :: "addr \<Rightarrow> ptr \<Rightarrow> heap \<Rightarrow> (error + heap) option" where
  "destroy_loop l current h =
     (case current of
        None \<Rightarrow> Some (Inr h)
      | Some temp \<Rightarrow>
          (case node_at h temp of
             None \<Rightarrow> Some (Inl Undefined)
           | Some tn \<Rightarrow>
               (case list_at h l of
                  None \<Rightarrow> Some (Inl Undefined)
                | Some L \<Rightarrow>
                    (case (if l_type L \<noteq> T then free_val (n_val tn) h else Inr h) of
                       Inl e \<Rightarrow> Some (Inl e)
                     | Inr h1 \<Rightarrow>
                         destroy_loop l (n_nextNode tn)
                           (h1\<lparr>node_at := (node_at h1)(temp := None)\<rparr>)))))"

definition destroyList :: "ptr \<Rightarrow> heap \<Rightarrow> (error + heap) option" where
  "destroyList this h =
     (case this of
        None \<Rightarrow> Some (Inr (report (NullList ''destroyList'') h))
      | Some l \<Rightarrow>
          (case list_at h l of
             None \<Rightarrow> Some (Inl Undefined)
           | Some L \<Rightarrow>
               (case destroy_loop l (l_head L) h of
                  None \<Rightarrow> None
                | Some (Inl e) \<Rightarrow> Some (Inl e)
                | Some (Inr h1) \<Rightarrow>
                    (case list_at h1 l of
                       None \<Rightarrow> Some (Inl Undefined)
                     | Some L1 \<Rightarrow>
                         Some (Inr (h1\<lparr>list_at := (list_at h1)(l \<mapsto>
                           L1\<lparr>l_head := None, l_tail := None, l_length := 0\<rparr>)\<rparr>))))))"

text \<open>\<^verbatim>\<open>this->_length++\<close> and \<^verbatim>\<open>this->_length--\<close> on the list at \<open>l\<close>.\<close>

definition length_incr :: "addr \<Rightarrow> heap \<Rightarrow> error + heap" where
  "length_incr l h =
     (case list_at h l of
        None \<Rightarrow> Inl Undefined
      | Some L \<Rightarrow>
          if INT_MAX \<le> l_length L then Inl Undefined
          else Inr (h\<lparr>list_at := (list_at h)(l \<mapsto> L\<lparr>l_length := l_length L + 1\<rparr>)\<rparr>))"

definition length_decr :: "addr \<Rightarrow> heap \<Rightarrow> error + heap" where
  "length_decr l h =
     (case list_at h l of
        None \<Rightarrow> Inl Undefined
      | Some L \<Rightarrow>
          if l_length L \<le> INT_MIN then Inl Undefined
          else Inr (h\<lparr>list_at := (list_at h)(l \<mapsto> L\<lparr>l_length := l_length L - 1\<rparr>)\<rparr>))"

definition underPush :: "addr \<Rightarrow> addr \<Rightarrow> heap \<Rightarrow> error + heap" where
  "underPush l node h =
     (case list_at h l of
        None \<Rightarrow> Inl Undefined
      | Some L \<Rightarrow>
          (case l_head L of
             None \<Rightarrow>
               length_incr l
                 (h\<lparr>list_at := (list_at h)(l \<mapsto> L\<lparr>l_head := Some node, l_tail := Some node\<rparr>)\<rparr>)
           | Some first \<Rightarrow>
               (case l_tail L of
                  None \<Rightarrow> Inl NullDeref
                | Some t \<Rightarrow>
                    (case node_at h t of
                       None \<Rightarrow> Inl Undefined
                     | Some tn \<Rightarrow>
                         length_incr l
                           (h\<lparr>node_at := (node_at h)(t \<mapsto> tn\<lparr>n_nextNode := Some node\<rparr>),
                              list_at := (list_at h)(l \<mapsto> L\<lparr>l_tail := Some node\<rparr>)\<rparr>)))))"

text \<open>
  The value \<^verbatim>\<open>push\<close> and \<^verbatim>\<open>insert\<close> read from the variadic position for a
  list of the given type, as the pointer they hand on: the address of the local holding
  the \<^verbatim>\<open>int\<close>, \<^verbatim>\<open>double\<close> or narrowed \<^verbatim>\<open>float\<close>, or the pointer argument itself.
\<close>

fun va_value :: "(cdouble \<Rightarrow> cfloat) \<Rightarrow> Type \<Rightarrow> vararg \<Rightarrow> error + vptr" where
  "va_value d2f INT_t (IntArg i) = Inr (Local (IntC i))"
| "va_value d2f STRING (PtrArg p) = Inr (Ptr p)"
| "va_value d2f DOUBLE (DoubleArg d) = Inr (Local (DoubleC d))"
| "va_value d2f FLOAT (DoubleArg d) = Inr (Local (FloatC (d2f d)))"
| "va_value d2f T (PtrArg p) = Inr (Ptr p)"
| "va_value d2f _ _ = Inl Undefined"

definition push :: "(cdouble \<Rightarrow> cfloat) \<Rightarrow> ptr \<Rightarrow> vararg \<Rightarrow> heap \<Rightarrow> error + heap" where
  "push d2f this arg h =
     (case this of
        None \<Rightarrow> Inr (report (NullList ''push'') h)
      | Some l \<Rightarrow>
          (case list_at h l of
             None \<Rightarrow> Inl Undefined
           | Some L \<Rightarrow>
               (case va_value d2f (l_type L) arg of
                  Inl e \<Rightarrow> Inl e
                | Inr val \<Rightarrow>
                    (case newNode val (l_size L) (l_type L) h of
                       Inl e \<Rightarrow> Inl e
                     | Inr (node, h1) \<Rightarrow> underPush l node h1))))"

text \<open>
  \<^verbatim>\<open>len\<close> has no \<^verbatim>\<open>return\<close> in the branch for a \<^verbatim>\<open>NULL\<close> list: after the message it
  goes on to \<^verbatim>\<open>return this->_length\<close>.
\<close>

definition len :: "ptr \<Rightarrow> heap \<Rightarrow> error + (int \<times> heap)" where
  "len this h =
     (case this of
        None \<Rightarrow> Inl NullDeref
      | Some l \<Rightarrow>
          (case list_at h l of
             None \<Rightarrow> Inl Undefined
           | Some L \<Rightarrow> Inr (l_length L, h)))"

definition pop :: "ptr \<Rightarrow> heap \<Rightarrow> error + (ptr \<times> heap)" where
  "pop this h =
     (case this of
        None \<Rightarrow> Inr (None, report (NullList ''pop'') h)
      | Some l \<Rightarrow>
          (case list_at h l of
             None \<Rightarrow> Inl Undefined
           | Some L \<Rightarrow>
               (case l_head L of
                  None \<Rightarrow> Inr (None, h)
                | Some current \<Rightarrow>
                    (case node_at h current of
                       None \<Rightarrow> Inl Undefined
                     | Some cn \<Rightarrow>
                         (case length_decr l
                                 (h\<lparr>node_at := (node_at h)(current := None),
                                    list_at := (list_at h)(l \<mapsto> L\<lparr>l_head := n_nextNode cn\<rparr>)\<rparr>) of
                            Inl e \<Rightarrow> Inl e
                          | Inr h1 \<Rightarrow>
                              (case list_at h1 l of
                                 None \<Rightarrow> Inl Undefined
                               | Some L1 \<Rightarrow>
                                   if l_head L1 = None
                                   then Inr (n_val cn,
                                          h1\<lparr>list_at := (list_at h1)(l \<mapsto> L1\<lparr>l_tail := None\<rparr>)\<rparr>)
                                   else Inr (n_val cn, h1)))))))"

function get_loop :: "int \<Rightarrow> ptr \<Rightarrow> int \<Rightarrow> heap \<Rightarrow> error + (ptr \<times> heap)" where
  "get_loop index current x h =
     (case current of
        None \<Rightarrow> Inr (None, report (OutOfBounds ''get'' index x) h)
      | Some c \<Rightarrow>
          (case node_at h c of
             None \<Rightarrow> Inl Undefined
           | Some cn \<Rightarrow>
               if x = index then Inr (n_val cn, h)
               else if INT_MAX \<le> x then Inl Undefined
               else get_loop index (n_nextNode cn) (x + 1) h))"
  by pat_completeness auto
termination
  by (relation "measure (\<lambda>(index, current, x, h). nat (INT_MAX - x))") auto

definition get :: "ptr \<Rightarrow> int \<Rightarrow> heap \<Rightarrow> error + (ptr \<times> heap)" where
  "get this index h =
     (case this of
        None \<Rightarrow> Inr (None, report (NullList ''get'') h)
      | Some l \<Rightarrow>
          if index < 0 then Inr (None, report (NegativeIndex ''get'' index) h)
          else
            (case list_at h l of
               None \<Rightarrow> Inl Undefined
             | Some L \<Rightarrow> get_loop index (l_head L) 0 h))"

text \<open>\<^verbatim>\<open>memcpy(p, &val, size)\<close> into a block of value storage.\<close>

definition memcpy_val :: "ptr \<Rightarrow> cell \<Rightarrow> heap \<Rightarrow> error + heap" where
  "memcpy_val p c h =
     (case p of
        None \<Rightarrow> Inl NullDeref
      | Some v \<Rightarrow>
          (case cell_at h v of
             None \<Rightarrow> Inl Undefined
           | Some old \<Rightarrow> Inr (h\<lparr>cell_at := (cell_at h)(v \<mapsto> c)\<rparr>)))"

text \<open>The \<^verbatim>\<open>switch\<close> of \<^verbatim>\<open>set\<close>, run on the node \<open>current\<close> once the index is reached.\<close>

definition set_value ::
  "(cdouble \<Rightarrow> cfloat) \<Rightarrow> Type \<Rightarrow> addr \<Rightarrow> vararg \<Rightarrow> heap \<Rightarrow> error + heap" where
  "set_value d2f type current arg h =
     (case node_at h current of
        None \<Rightarrow> Inl Undefined
      | Some cn \<Rightarrow>
          (case type of
             INT_t \<Rightarrow>
               (case arg of
                  IntArg val \<Rightarrow> memcpy_val (n_val cn) (IntC val) h
                | _ \<Rightarrow> Inl Undefined)
           | FLOAT \<Rightarrow>
               (case arg of
                  DoubleArg d \<Rightarrow> memcpy_val (n_val cn) (FloatC (d2f d)) h
                | _ \<Rightarrow> Inl Undefined)
           | DOUBLE \<Rightarrow>
               (case arg of
                  DoubleArg dbl \<Rightarrow> memcpy_val (n_val cn) (DoubleC dbl) h
                | _ \<Rightarrow> Inl Undefined)
           | STRING \<Rightarrow>
               (case arg of
                  PtrArg chr \<Rightarrow>
                    (case free_val (n_val cn) h of
                       Inl e \<Rightarrow> Inl e
                     | Inr h1 \<Rightarrow>
                         (case chr of
                            None \<Rightarrow> Inl NullDeref
                          | Some p \<Rightarrow>
                              (case cell_at h1 p of
                                 Some (StrC s) \<Rightarrow>
                                   (case malloc h1 of
                                      None \<Rightarrow> Inl ExitFailure
                                    | Some (v, h2) \<Rightarrow>
                                        Inr (h2\<lparr>cell_at := (cell_at h2)(v \<mapsto> StrC s),
                                               node_at := (node_at h2)(current \<mapsto>
                                                 cn\<lparr>n_val := Some v\<rparr>)\<rparr>))
                               | _ \<Rightarrow> Inl Undefined)))
                | _ \<Rightarrow> Inl Undefined)
           | T \<Rightarrow>
               (case arg of
                  PtrArg nil \<Rightarrow>
                    Inr (h\<lparr>node_at := (node_at h)(current \<mapsto> cn\<lparr>n_val := nil\<rparr>)\<rparr>)
                | _ \<Rightarrow> Inl Undefined)))"

function set_loop ::
  "(cdouble \<Rightarrow> cfloat) \<Rightarrow> addr \<Rightarrow> int \<Rightarrow> vararg \<Rightarrow> ptr \<Rightarrow> int \<Rightarrow> heap \<Rightarrow> error + heap" where
  "set_loop d2f l index arg current x h =
     (case current of
        None \<Rightarrow> Inr (report (OutOfBounds ''set'' index x) h)
      | Some c \<Rightarrow>
          if x = index then
            (case list_at h l of
               None \<Rightarrow> Inl Undefined
             | Some L \<Rightarrow> set_value d2f (l_type L) c arg h)
          else
            (case node_at h c of
               None \<Rightarrow> Inl Undefined
             | Some cn \<Rightarrow>
                 if INT_MAX \<le> x then Inl Undefined
                 else set_loop d2f l index arg (n_nextNode cn) (x + 1) h))"
  by pat_completeness auto
termination
  by (relation "measure (\<lambda>(d2f, l, index, arg, current, x, h). nat (INT_MAX - x))") auto

definition set_l ::
  "(cdouble \<Rightarrow> cfloat) \<Rightarrow> ptr \<Rightarrow> int \<Rightarrow> vararg \<Rightarrow> heap \<Rightarrow> error + heap" where
  "set_l d2f this index arg h =
     (case this of
        None \<Rightarrow> Inr (report (NullList ''set'') h)
      | Some l \<Rightarrow>
          if index < 0 then Inr (report (NegativeIndex ''set'' index) h)
          else
            (case list_at h l of
               None \<Rightarrow> Inl Undefined
             | Some L \<Rightarrow> set_loop d2f l index arg (l_head L) 0 h))"

text \<open>\<^verbatim>\<open>if(this->_type != T) free(temp->_val); free(temp); this->_length--;\<close>\<close>

definition release_node :: "addr \<Rightarrow> addr \<Rightarrow> heap \<Rightarrow> error + heap" where
  "release_node l temp h =
     (case list_at h l of
        None \<Rightarrow> Inl Undefined
      | Some L \<Rightarrow>
          (case node_at h temp of
             None \<Rightarrow> Inl Undefined
           | Some tn \<Rightarrow>
               (case (if l_type L \<noteq> T then free_val (n_val tn) h else Inr h) of
                  Inl e \<Rightarrow> Inl e
                | Inr h1 \<Rightarrow> length_decr l (h1\<lparr>node_at := (node_at h1)(temp := None)\<rparr>))))"

text \<open>
  \<^verbatim>\<open>current->_nextNode = temp->_nextNode; if (temp == this->_tail) this->_tail = current;\<close>,
  the relinking \<^verbatim>\<open>delete\<close> and \<^verbatim>\<open>pick\<close> both perform on the predecessor \<open>current\<close> of
  the node \<open>temp\<close>.
\<close>

definition unlink_next :: "addr \<Rightarrow> addr \<Rightarrow> addr \<Rightarrow> heap \<Rightarrow> error + heap" where
  "unlink_next l current temp h =
     (case node_at h current of
        None \<Rightarrow> Inl Undefined
      | Some cn \<Rightarrow>
          (case node_at h temp of
             None \<Rightarrow> Inl Undefined
           | Some tn \<Rightarrow>
               (case list_at h l of
                  None \<Rightarrow> Inl Undefined
                | Some L \<Rightarrow>
                    Inr (h\<lparr>node_at := (node_at h)(current \<mapsto> cn\<lparr>n_nextNode := n_nextNode tn\<rparr>),
                           list_at := (list_at h)(l \<mapsto>
                             (if Some temp = l_tail L then L\<lparr>l_tail := Some current\<rparr> else L))\<rparr>))))"

function delete_loop :: "addr \<Rightarrow> int \<Rightarrow> ptr \<Rightarrow> int \<Rightarrow> heap \<Rightarrow> error + heap" where
  "delete_loop l index current x h =
     (case current of
        None \<Rightarrow> Inr (report (OutOfBounds ''delete'' index x) h)
      | Some c \<Rightarrow>
          (case node_at h c of
             None \<Rightarrow> Inl Undefined
           | Some cn \<Rightarrow>
               if index - 1 = x \<and> index \<noteq> 0 then
                 (case n_nextNode cn of
                    None \<Rightarrow> Inr (report (OutOfBounds ''delete'' index x) h)
                  | Some temp \<Rightarrow>
                      (case unlink_next l c temp h of
                         Inl e \<Rightarrow> Inl e
                       | Inr h1 \<Rightarrow> release_node l temp h1))
               else if INT_MAX \<le> x then Inl Undefined
               else delete_loop l index (n_nextNode cn) (x + 1) h))"
  by pat_completeness auto
termination
  by (relation "measure (\<lambda>(l, index, current, x, h). nat (INT_MAX - x))") auto

definition delete :: "ptr \<Rightarrow> int \<Rightarrow> heap \<Rightarrow> error + heap" where
  "delete this index h =
     (case this of
        None \<Rightarrow> Inr (report (NullList ''delete'') h)
      | Some l \<Rightarrow>
          if index < 0 then Inr (report (NegativeIndex ''delete'' index) h)
          else
            (case list_at h l of
               None \<Rightarrow> Inl Undefined
             | Some L \<Rightarrow>
                 if index = 0 then
                   (case l_head L of
                      None \<Rightarrow> Inl NullDeref
                    | Some temp \<Rightarrow>
                        (case node_at h temp of
                           None \<Rightarrow> Inl Undefined
                         | Some tn \<Rightarrow>
                             release_node l temp
                               (h\<lparr>list_at := (list_at h)(l \<mapsto>
                                    (if n_nextNode tn = None
                                     then L\<lparr>l_head := n_nextNode tn, l_tail := None\<rparr>
                                     else L\<lparr>l_head := n_nextNode tn\<rparr>))\<rparr>)))
                 else delete_loop l index (l_head L) 0 h))"

function underInsert_loop :: "addr \<Rightarrow> int \<Rightarrow> addr \<Rightarrow> ptr \<Rightarrow> int \<Rightarrow> heap \<Rightarrow> error + heap" where
  "underInsert_loop l index node current x h =
     (case current of
        None \<Rightarrow> Inr h
      | Some c \<Rightarrow>
          (case node_at h c of
             None \<Rightarrow> Inl Undefined
           | Some cn \<Rightarrow>
               if x = index - 1 then
                 (let h1 = h\<lparr>node_at := (node_at h)(c \<mapsto> cn\<lparr>n_nextNode := Some node\<rparr>)\<rparr> in
                  case node_at h1 node of
                    None \<Rightarrow> Inl Undefined
                  | Some nn \<Rightarrow>
                      length_incr l
                        (h1\<lparr>node_at := (node_at h1)(node \<mapsto> nn\<lparr>n_nextNode := n_nextNode cn\<rparr>)\<rparr>))
               else if INT_MAX \<le> x then Inl Undefined
               else underInsert_loop l index node (n_nextNode cn) (x + 1) h))"
  by pat_completeness auto
termination
  by (relation "measure (\<lambda>(l, index, node, current, x, h). nat (INT_MAX - x))") auto

definition underInsert :: "addr \<Rightarrow> int \<Rightarrow> addr \<Rightarrow> heap \<Rightarrow> error + heap" where
  "underInsert l index node h =
     (case list_at h l of
        None \<Rightarrow> Inl Undefined
      | Some L \<Rightarrow>
          if index = 0 then
            (case node_at h node of
               None \<Rightarrow> Inl Undefined
             | Some nn \<Rightarrow>
                 length_incr l
                   (h\<lparr>node_at := (node_at h)(node \<mapsto> nn\<lparr>n_nextNode := l_head L\<rparr>),
                      list_at := (list_at h)(l \<mapsto> L\<lparr>l_head := Some node\<rparr>)\<rparr>))
          else underInsert_loop l index node (l_head L) 0 h)"

definition insert_l ::
  "(cdouble \<Rightarrow> cfloat) \<Rightarrow> ptr \<Rightarrow> int \<Rightarrow> vararg \<Rightarrow> heap \<Rightarrow> error + heap" where
  "insert_l d2f this index arg h =
     (case this of
        None \<Rightarrow> Inr (report (NullList ''insert'') h)
      | Some l \<Rightarrow>
          (case len this h of
             Inl e \<Rightarrow> Inl e
           | Inr (list_len, h0) \<Rightarrow>
               if index < 0 \<or> index > list_len
               then Inr (report (OutOfBounds ''insert'' index list_len) h0)
               else
                 (case list_at h0 l of
                    None \<Rightarrow> Inl Undefined
                  | Some L \<Rightarrow>
                      (case va_value d2f (l_type L) arg of
                         Inl e \<Rightarrow> Inl e
                       | Inr val \<Rightarrow>
                           (case newNode val (l_size L) (l_type L) h0 of
                              Inl e \<Rightarrow> Inl e
                            | Inr (node, h1) \<Rightarrow> underInsert l index node h1)))))"

function pick_loop :: "addr \<Rightarrow> int \<Rightarrow> ptr \<Rightarrow> int \<Rightarrow> heap \<Rightarrow> error + (ptr \<times> heap)" where
  "pick_loop l index current x h =
     (case current of
        None \<Rightarrow> Inr (None, report (OutOfBounds ''pick'' index x) h)
      | Some c \<Rightarrow>
          (case node_at h c of
             None \<Rightarrow> Inl Undefined
           | Some cn \<Rightarrow>
               if x = index - 1 \<and> n_nextNode cn \<noteq> None then
                 (case n_nextNode cn of
                    None \<Rightarrow> Inl Undefined
                  | Some temp \<Rightarrow>
                      (case unlink_next l c temp h of
                         Inl e \<Rightarrow> Inl e
                       | Inr h1 \<Rightarrow>
                           (case node_at h1 temp of
                              None \<Rightarrow> Inl Undefined
                            | Some tn \<Rightarrow>
                                (case length_decr l (h1\<lparr>node_at := (node_at h1)(temp := None)\<rparr>) of
                                   Inl e \<Rightarrow> Inl e
                                 | Inr h2 \<Rightarrow> Inr (n_val tn, h2)))))
               else if INT_MAX \<le> x then Inl Undefined
               else pick_loop l index (n_nextNode cn) (x + 1) h))"
  by pat_completeness auto
termination
  by (relation "measure (\<lambda>(l, index, current, x, h). nat (INT_MAX - x))") auto

definition pick :: "ptr \<Rightarrow> int \<Rightarrow> heap \<Rightarrow> error + (ptr \<times> heap)" where
  "pick this index h =
     (case this of
        None \<Rightarrow> Inr (None, report (NullList ''pick'') h)
      | Some l \<Rightarrow>
          if index < 0 then Inr (None, report (NegativeIndex ''pick'' index) h)
          else if index = 0 then pop this h
          else
            (case list_at h l of
               None \<Rightarrow> Inl Undefined
             | Some L \<Rightarrow> pick_loop l index (l_head L) 0 h))"

section \<open>The iterator: \<^verbatim>\<open>Titerator.c\<close>\<close>

definition newIterator :: "ptr \<Rightarrow> heap \<Rightarrow> error + (addr \<times> heap)" where
  "newIterator list h =
     (case malloc h of
        None \<Rightarrow> Inl ExitFailure
      | Some (iterator, h1) \<Rightarrow>
          (case list of
             None \<Rightarrow> Inl ExitFailure
           | Some l \<Rightarrow>
               (case list_at h1 l of
                  None \<Rightarrow> Inl Undefined
                | Some L \<Rightarrow>
                    Inr (iterator, h1\<lparr>iter_at := (iter_at h1)(iterator \<mapsto>
                           \<lparr>i_list = list, i_current = l_head L, i_index = 0\<rparr>)\<rparr>))))"

definition next_it :: "ptr \<Rightarrow> heap \<Rightarrow> error + (ptr \<times> heap)" where
  "next_it iterator h =
     (case iterator of
        None \<Rightarrow> Inr (None, report NoMoreElements h)
      | Some it \<Rightarrow>
          (case iter_at h it of
             None \<Rightarrow> Inl Undefined
           | Some I \<Rightarrow>
               (case i_current I of
                  None \<Rightarrow> Inr (None, report NoMoreElements h)
                | Some c \<Rightarrow>
                    (case node_at h c of
                       None \<Rightarrow> Inl Undefined
                     | Some cn \<Rightarrow>
                         if INT_MAX \<le> i_index I then Inl Undefined
                         else
                           Inr (n_val cn, h\<lparr>iter_at := (iter_at h)(it \<mapsto>
                                  I\<lparr>i_index := i_index I + 1, i_current := n_nextNode cn\<rparr>)\<rparr>)))))"

definition hasNext :: "ptr \<Rightarrow> heap \<Rightarrow> error + bool" where
  "hasNext iterator h =
     (case iterator of
        None \<Rightarrow> Inr False
      | Some it \<Rightarrow>
          (case iter_at h it of
             None \<Rightarrow> Inl Undefined
           | Some I \<Rightarrow> Inr (i_current I \<noteq> None)))"

definition freeIterator :: "ptr \<Rightarrow> heap \<Rightarrow> error + heap" where
  "freeIterator iterator h =
     (case iterator of
        None \<Rightarrow> Inr h
      | Some it \<Rightarrow>
          (case iter_at h it of
             None \<Rightarrow> Inl Undefined
           | Some I \<Rightarrow> Inr (h\<lparr>iter_at := (iter_at h)(it := None)\<rparr>)))"

section \<open>\<^verbatim>\<open>duplicate\<close>\<close>

text \<open>
  The argument \<^verbatim>\<open>duplicate\<close> passes to \<^verbatim>\<open>push\<close> for the value pointer \<open>val\<close> its
  iterator returned: \<^verbatim>\<open>*(int *)val\<close>, \<^verbatim>\<open>*(float *)val\<close> promoted to \<^verbatim>\<open>double\<close>,
  \<^verbatim>\<open>*(double *)val\<close>, or the pointer itself.
\<close>

definition dup_arg :: "(cfloat \<Rightarrow> cdouble) \<Rightarrow> Type \<Rightarrow> ptr \<Rightarrow> heap \<Rightarrow> error + vararg" where
  "dup_arg f2d type val h =
     (if type = STRING \<or> type = T then Inr (PtrArg val)
      else
        (case val of
           None \<Rightarrow> Inl NullDeref
         | Some v \<Rightarrow>
             (case cell_at h v of
                None \<Rightarrow> Inl Undefined
              | Some c \<Rightarrow>
                  (case (type, c) of
                     (INT_t, IntC i) \<Rightarrow> Inr (IntArg i)
                   | (FLOAT, FloatC f) \<Rightarrow> Inr (DoubleArg (f2d f))
                   | (DOUBLE, DoubleC d) \<Rightarrow> Inr (DoubleArg d)
                   | _ \<Rightarrow> Inl Undefined))))"

function duplicate_loop ::
  "(cdouble \<Rightarrow> cfloat) \<Rightarrow> (cfloat \<Rightarrow> cdouble) \<Rightarrow> addr \<Rightarrow> addr \<Rightarrow> addr \<Rightarrow> heap \<Rightarrow> error + heap" where
  "duplicate_loop d2f f2d this list iterator h =
     (case hasNext (Some iterator) h of
        Inl e \<Rightarrow> Inl e
      | Inr b \<Rightarrow>
          if \<not> b then Inr h
          else
            (case next_it (Some iterator) h of
               Inl e \<Rightarrow> Inl e
             | Inr (val, h1) \<Rightarrow>
                 (case list_at h1 this of
                    None \<Rightarrow> Inl Undefined
                  | Some L \<Rightarrow>
                      (case dup_arg f2d (l_type L) val h1 of
                         Inl e \<Rightarrow> Inl e
                       | Inr arg \<Rightarrow>
                           (case push d2f (Some list) arg h1 of
                              Inl e \<Rightarrow> Inl e
                            | Inr h2 \<Rightarrow> duplicate_loop d2f f2d this list iterator h2)))))"
  by pat_completeness auto
termination
proof (relation "measure (\<lambda>(d2f, f2d, this, list, iterator, h). avail h)", goal_cases)
  case 1
  show ?case by simp
next
  case (2 d2f f2d this list iterator h b pr val h1 L arg h2)
  have "avail h1 = avail h"
    using \<open>next_it (Some iterator) h = Inr pr\<close> \<open>(val, h1) = pr\<close>
    by (auto simp: next_it_def report_def split: option.splits if_splits)
  moreover have "avail h2 < avail h1"
  proof -
    from \<open>push d2f (Some list) arg h1 = Inr h2\<close>
    obtain LL :: Lista and v node h' where nn: "newNode v (l_size LL) (l_type LL) h1 = Inr (node, h')"
      and up: "underPush list node h' = Inr h2"
      by (auto simp: push_def split: option.splits sum.splits prod.splits)
    from nn have "avail h' < avail h1"
      by (auto simp: newNode_def malloc_def
          split: option.splits if_splits vptr.splits cell.splits prod.splits)
    moreover from up have "avail h2 = avail h'"
      by (auto simp: underPush_def length_incr_def split: option.splits if_splits)
    ultimately show ?thesis by simp
  qed
  ultimately show ?case by simp
qed

definition duplicate ::
  "(cdouble \<Rightarrow> cfloat) \<Rightarrow> (cfloat \<Rightarrow> cdouble) \<Rightarrow> ptr \<Rightarrow> heap \<Rightarrow> error + (ptr \<times> heap)" where
  "duplicate d2f f2d this h =
     (case this of
        None \<Rightarrow> Inr (None, report (NullList ''duplicate'') h)
      | Some l \<Rightarrow>
          (case list_at h l of
             None \<Rightarrow> Inl Undefined
           | Some L \<Rightarrow>
               (case newList (l_type L) h of
                  Inl e \<Rightarrow> Inl e
                | Inr (list, h1) \<Rightarrow>
                    (case newIterator this h1 of
                       Inl e \<Rightarrow> Inl e
                     | Inr (iterator, h2) \<Rightarrow>
                         (case duplicate_loop d2f f2d l list iterator h2 of
                            Inl e \<Rightarrow> Inl e
                          | Inr h3 \<Rightarrow>
                              (case freeIterator (Some iterator) h3 of
                                 Inl e \<Rightarrow> Inl e
                               | Inr h4 \<Rightarrow> Inr (Some list, h4)))))))"

section \<open>Sequences of calls\<close>

text \<open>
  One call after another, the second only when the first returns (\<open>and_then\<close>), and a
  caller's loops over the public operations: pushing a list of arguments one after the
  other, calling \<^verbatim>\<open>pop\<close> \<open>n\<close> times and collecting what it returns, and the loop
  \<^verbatim>\<open>hasNext\<close>/\<^verbatim>\<open>next\<close> run \<open>n\<close> times, collecting both answers. Each stops at the
  first call that does not return.
\<close>

definition and_then :: "error + 'a \<Rightarrow> ('a \<Rightarrow> error + 'b) \<Rightarrow> error + 'b" where
  "and_then r f = (case r of Inl e \<Rightarrow> Inl e | Inr x \<Rightarrow> f x)"

fun push_all :: "(cdouble \<Rightarrow> cfloat) \<Rightarrow> ptr \<Rightarrow> vararg list \<Rightarrow> heap \<Rightarrow> error + heap" where
  "push_all d2f this [] h = Inr h"
| "push_all d2f this (arg # args) h =
     (case push d2f this arg h of
        Inl e \<Rightarrow> Inl e
      | Inr h1 \<Rightarrow> push_all d2f this args h1)"

fun pop_n :: "ptr \<Rightarrow> nat \<Rightarrow> heap \<Rightarrow> error + (ptr list \<times> heap)" where
  "pop_n this 0 h = Inr ([], h)"
| "pop_n this (Suc n) h =
     (case pop this h of
        Inl e \<Rightarrow> Inl e
      | Inr (p, h1) \<Rightarrow>
          (case pop_n this n h1 of
             Inl e \<Rightarrow> Inl e
           | Inr (ps, h2) \<Rightarrow> Inr (p # ps, h2)))"

fun drain :: "ptr \<Rightarrow> nat \<Rightarrow> heap \<Rightarrow> error + ((bool \<times> ptr) list \<times> heap)" where
  "drain iterator 0 h = Inr ([], h)"
| "drain iterator (Suc n) h =
     (case hasNext iterator h of
        Inl e \<Rightarrow> Inl e
      | Inr b \<Rightarrow>
          (case next_it iterator h of
             Inl e \<Rightarrow> Inl e
           | Inr (p, h1) \<Rightarrow>
               (case drain iterator n h1 of
                  Inl e \<Rightarrow> Inl e
                | Inr (rs, h2) \<Rightarrow> Inr ((b, p) # rs, h2))))"

section \<open>Well-formed lists\<close>

text \<open>
  \<open>chain ns p as\<close>: in the node store \<open>ns\<close>, following \<^verbatim>\<open>_nextNode\<close> from the pointer
  \<open>p\<close> visits exactly the allocated nodes \<open>as\<close>, in this order, and then reaches
  \<^verbatim>\<open>NULL\<close>.
\<close>

fun chain :: "(addr \<Rightarrow> Node option) \<Rightarrow> ptr \<Rightarrow> addr list \<Rightarrow> bool" where
  "chain ns p [] = (p = None)"
| "chain ns p (a # as) =
     (p = Some a \<and>
      (case ns a of
         None \<Rightarrow> False
       | Some n \<Rightarrow> chain ns (n_nextNode n) as))"

text \<open>
  The invariant of section 3 of the specification, for the list structure at \<open>l\<close> and the
  nodes \<open>as\<close> reachable from its head: the tail pointer is the last of them (and \<^verbatim>\<open>NULL\<close>
  when there is none), and the stored length is their number, an \<^verbatim>\<open>int\<close>.
\<close>

definition is_list :: "heap \<Rightarrow> addr \<Rightarrow> addr list \<Rightarrow> bool" where
  "is_list h l as =
     (case list_at h l of
        None \<Rightarrow> False
      | Some L \<Rightarrow>
          chain (node_at h) (l_head L) as \<and>
          l_tail L = (if as = [] then None else Some (last as)) \<and>
          l_length L = int (length as) \<and>
          l_length L \<le> INT_MAX)"

text \<open>
  An element as a caller sees it: for the owning kinds the content of the storage behind
  the value pointer, which is a block handed out by \<^verbatim>\<open>malloc\<close> (below \<open>brk\<close>) and still
  allocated; for \<open>T\<close> the stored pointer itself.
\<close>

datatype elem = Held cell | Ref ptr

definition node_val :: "heap \<Rightarrow> addr \<Rightarrow> ptr" where
  "node_val h a = (case node_at h a of None \<Rightarrow> None | Some n \<Rightarrow> n_val n)"

definition elem_of :: "Type \<Rightarrow> heap \<Rightarrow> ptr \<Rightarrow> elem option" where
  "elem_of type h p =
     (if type = T then Some (Ref p)
      else
        (case p of
           None \<Rightarrow> None
         | Some v \<Rightarrow>
             (case cell_at h v of
                None \<Rightarrow> None
              | Some c \<Rightarrow> if v < brk h then Some (Held c) else None)))"

text \<open>
  \<open>holds h l as es\<close>: the list at \<open>l\<close> is well formed with nodes \<open>as\<close>, the structure
  and the nodes are among the addresses handed out by \<^verbatim>\<open>malloc\<close>, \<^verbatim>\<open>_size\<close> is as
  \<^verbatim>\<open>newList\<close> set it, and the elements are \<open>es\<close>, in this order.
\<close>

definition holds :: "heap \<Rightarrow> addr \<Rightarrow> addr list \<Rightarrow> elem list \<Rightarrow> bool" where
  "holds h l as es =
     (is_list h l as \<and> l < brk h \<and> list_all (\<lambda>a. a < brk h) as \<and>
      (case list_at h l of
         None \<Rightarrow> False
       | Some L \<Rightarrow>
           l_size L = sizeof (l_type L) \<and>
           map (\<lambda>a. elem_of (l_type L) h (node_val h a)) as = map Some es))"

text \<open>
  The element an argument becomes when it is stored in a list of the given type; \<open>None\<close>
  when the argument is not of the list's kind, or is not a string in the store.
\<close>

fun stored :: "(cdouble \<Rightarrow> cfloat) \<Rightarrow> Type \<Rightarrow> heap \<Rightarrow> vararg \<Rightarrow> elem option" where
  "stored d2f INT_t h (IntArg i) = Some (Held (IntC i))"
| "stored d2f FLOAT h (DoubleArg d) = Some (Held (FloatC (d2f d)))"
| "stored d2f DOUBLE h (DoubleArg d) = Some (Held (DoubleC d))"
| "stored d2f STRING h (PtrArg (Some p)) =
     (case cell_at h p of
        Some (StrC s) \<Rightarrow> if p < brk h then Some (Held (StrC s)) else None
      | _ \<Rightarrow> None)"
| "stored d2f T h (PtrArg p) = Some (Ref p)"
| "stored d2f _ h _ = None"

text \<open>The elements a list of the given type holds when its values were stored at that type.\<close>

fun of_kind :: "Type \<Rightarrow> elem \<Rightarrow> bool" where
  "of_kind T (Ref p) = True"
| "of_kind INT_t (Held (IntC i)) = True"
| "of_kind FLOAT (Held (FloatC f)) = True"
| "of_kind DOUBLE (Held (DoubleC d)) = True"
| "of_kind STRING (Held (StrC s)) = True"
| "of_kind _ _ = False"

text \<open>
  \<open>has_elems h l as es\<close>: what a reader of the list at \<open>l\<close> finds, whatever its tail
  pointer and stored length say: the nodes \<open>as\<close> on the chain from \<^verbatim>\<open>_head\<close>, holding the
  elements \<open>es\<close>, the structure and the nodes being among the addresses handed out by
  \<^verbatim>\<open>malloc\<close>.
\<close>

definition has_elems :: "heap \<Rightarrow> addr \<Rightarrow> addr list \<Rightarrow> elem list \<Rightarrow> bool" where
  "has_elems h l as es =
     (case list_at h l of
        None \<Rightarrow> False
      | Some L \<Rightarrow>
          chain (node_at h) (l_head L) as \<and> l < brk h \<and> list_all (\<lambda>a. a < brk h) as \<and>
          map (\<lambda>a. elem_of (l_type L) h (node_val h a)) as = map Some es)"

text \<open>
  An element after \<^verbatim>\<open>duplicate\<close> has passed it to \<^verbatim>\<open>push\<close>: a float is promoted to
  \<^verbatim>\<open>double\<close> for the variadic call and narrowed again by \<^verbatim>\<open>push\<close>; every other element
  arrives as it is.
\<close>

fun via_double :: "(cdouble \<Rightarrow> cfloat) \<Rightarrow> (cfloat \<Rightarrow> cdouble) \<Rightarrow> elem \<Rightarrow> elem" where
  "via_double d2f f2d (Held (FloatC f)) = Held (FloatC (d2f (f2d f)))"
| "via_double d2f f2d e = e"

text \<open>The number of blocks \<^verbatim>\<open>newNode\<close> allocates for an element of the given type.\<close>

definition allocs :: "Type \<Rightarrow> nat" where
  "allocs type = (if type = T then 1 else 2)"

text \<open>The store before any allocation, with room for \<open>n\<close> allocations.\<close>

definition empty_heap :: "nat \<Rightarrow> heap" where
  "empty_heap n =
     \<lparr>list_at = Map.empty, node_at = Map.empty, iter_at = Map.empty, cell_at = Map.empty,
      brk = 0, avail = n, stderr = []\<rparr>"

text \<open>
  Concrete stores for the instances below. \<open>new_list_heap type n\<close> is the store after
  \<^verbatim>\<open>newList(type)\<close> on the empty store, with \<open>n\<close> allocations left; \<open>two_ints\<close> is the
  store after \<^verbatim>\<open>newList(INT)\<close> and the pushes of 10 and 20 on the empty store, and
  \<open>one_float\<close> the store after \<^verbatim>\<open>newList(FLOAT)\<close> and one push, with the bit pattern 7
  in the element; \<open>spent_iterator\<close> adds to \<open>two_ints\<close> an iterator over its list that has
  been advanced past the last node. Two stores hold a list that \<^verbatim>\<open>insert\<close> has left with
  a wrong tail pointer: \<open>front_inserted\<close> after \<^verbatim>\<open>newList(INT)\<close> and \<^verbatim>\<open>insert(0, 7)\<close>,
  \<open>stale_tail\<close> after \<^verbatim>\<open>newList(INT)\<close>, \<^verbatim>\<open>push(1)\<close> and \<^verbatim>\<open>insert(1, 2)\<close>. \<open>two_refs\<close>
  holds a list of type \<open>T\<close> with the pointers 40 and 41 pushed.
\<close>

definition new_list_heap :: "Type \<Rightarrow> nat \<Rightarrow> heap" where
  "new_list_heap type n =
     \<lparr>list_at = [0 \<mapsto> \<lparr>l_head = None, l_tail = None, l_type = type,
                         l_size = sizeof type, l_length = 0\<rparr>],
      node_at = Map.empty, iter_at = Map.empty, cell_at = Map.empty,
      brk = 1, avail = n, stderr = []\<rparr>"

definition two_ints :: heap where
  "two_ints =
     \<lparr>list_at = [0 \<mapsto> \<lparr>l_head = Some 1, l_tail = Some 3, l_type = INT_t,
                         l_size = 4, l_length = 2\<rparr>],
      node_at = [1 \<mapsto> \<lparr>n_val = Some 2, n_nextNode = Some 3\<rparr>,
                 3 \<mapsto> \<lparr>n_val = Some 4, n_nextNode = None\<rparr>],
      iter_at = Map.empty,
      cell_at = [2 \<mapsto> IntC 10, 4 \<mapsto> IntC 20],
      brk = 5, avail = 5, stderr = []\<rparr>"

definition one_float :: heap where
  "one_float =
     \<lparr>list_at = [0 \<mapsto> \<lparr>l_head = Some 1, l_tail = Some 1, l_type = FLOAT,
                         l_size = 4, l_length = 1\<rparr>],
      node_at = [1 \<mapsto> \<lparr>n_val = Some 2, n_nextNode = None\<rparr>],
      iter_at = Map.empty,
      cell_at = [2 \<mapsto> FloatC 7],
      brk = 3, avail = 6, stderr = []\<rparr>"

definition front_inserted :: heap where
  "front_inserted =
     \<lparr>list_at = [0 \<mapsto> \<lparr>l_head = Some 1, l_tail = None, l_type = INT_t,
                         l_size = 4, l_length = 1\<rparr>],
      node_at = [1 \<mapsto> \<lparr>n_val = Some 2, n_nextNode = None\<rparr>],
      iter_at = Map.empty,
      cell_at = [2 \<mapsto> IntC 7],
      brk = 3, avail = 6, stderr = []\<rparr>"

definition stale_tail :: heap where
  "stale_tail =
     \<lparr>list_at = [0 \<mapsto> \<lparr>l_head = Some 1, l_tail = Some 1, l_type = INT_t,
                         l_size = 4, l_length = 2\<rparr>],
      node_at = [1 \<mapsto> \<lparr>n_val = Some 2, n_nextNode = Some 3\<rparr>,
                 3 \<mapsto> \<lparr>n_val = Some 4, n_nextNode = None\<rparr>],
      iter_at = Map.empty,
      cell_at = [2 \<mapsto> IntC 1, 4 \<mapsto> IntC 2],
      brk = 5, avail = 7, stderr = []\<rparr>"

definition two_refs :: heap where
  "two_refs =
     \<lparr>list_at = [0 \<mapsto> \<lparr>l_head = Some 1, l_tail = Some 2, l_type = T,
                         l_size = 8, l_length = 2\<rparr>],
      node_at = [1 \<mapsto> \<lparr>n_val = Some 40, n_nextNode = Some 2\<rparr>,
                 2 \<mapsto> \<lparr>n_val = Some 41, n_nextNode = None\<rparr>],
      iter_at = Map.empty,
      cell_at = Map.empty,
      brk = 3, avail = 6, stderr = []\<rparr>"

definition spent_iterator :: heap where
  "spent_iterator =
     two_ints\<lparr>iter_at := [5 \<mapsto> \<lparr>i_list = Some 0, i_current = None, i_index = 2\<rparr>],
              brk := 6, avail := 4\<rparr>"

section \<open>Basic facts\<close>

declare get_loop.simps [simp del] set_loop.simps [simp del] delete_loop.simps [simp del]
  underInsert_loop.simps [simp del] pick_loop.simps [simp del] duplicate_loop.simps [simp del]

lemma chain_Cons [simp]:
  "chain ns p (a # as) = (p = Some a \<and> (\<exists>n. ns a = Some n \<and> chain ns (n_nextNode n) as))"
  by (simp split: option.splits)

declare chain.simps(2) [simp del]

lemma chain_same: "(\<And>a. a \<in> set as \<Longrightarrow> ns' a = ns a) \<Longrightarrow> chain ns' p as = chain ns p as"
  by (induction as arbitrary: p) auto

lemma chain_unique: "chain ns p as \<Longrightarrow> chain ns p bs \<Longrightarrow> as = bs"
proof (induction as arbitrary: p bs)
  case Nil
  then show ?case by (cases bs) auto
next
  case (Cons a as)
  then show ?case by (cases bs) auto
qed

lemma chain_suffix:
  "chain ns p (xs @ a # ys) \<Longrightarrow> chain ns (Some a) (a # ys)"
  by (induction xs arbitrary: p) auto

lemma chain_head_notin:
  assumes "chain ns (Some a) (a # as)"
  shows "a \<notin> set as"
proof
  assume "a \<in> set as"
  then obtain xs ys where "as = xs @ a # ys" by (auto simp: in_set_conv_decomp)
  with assms have "chain ns (Some a) ((a # xs) @ a # ys)" by simp
  then have "chain ns (Some a) (a # ys)" by (rule chain_suffix)
  with assms have "a # as = a # ys" by (rule chain_unique)
  with \<open>as = xs @ a # ys\<close> show False by simp
qed

lemma chain_distinct: "chain ns p as \<Longrightarrow> distinct as"
proof (induction as arbitrary: p)
  case Nil
  then show ?case by simp
next
  case (Cons a as)
  then have "chain ns (Some a) (a # as)" by simp
  then have "a \<notin> set as" by (rule chain_head_notin)
  moreover from Cons have "distinct as" by auto
  ultimately show ?case by simp
qed


lemma chain_alloc: "chain ns p as \<Longrightarrow> a \<in> set as \<Longrightarrow> \<exists>n. ns a = Some n"
  by (induction as arbitrary: p) auto

lemma chain_nonempty: "chain ns p as \<Longrightarrow> as \<noteq> [] \<Longrightarrow> p = Some (hd as)"
  by (cases as) auto

lemma chain_snoc:
  assumes "chain ns p as" and "as \<noteq> []" and "ns (last as) = Some tn" and "b \<notin> set as"
    and "n_nextNode nb = None"
  shows "chain (ns(last as \<mapsto> tn\<lparr>n_nextNode := Some b\<rparr>, b \<mapsto> nb)) p (as @ [b])"
  using assms
proof (induction as arbitrary: p)
  case Nil
  then show ?case by simp
next
  case (Cons a as)
  from Cons.prems(1) obtain n where p: "p = Some a" and n: "ns a = Some n"
    and rest: "chain ns (n_nextNode n) as" by auto
  let ?ns = "ns(last (a # as) \<mapsto> tn\<lparr>n_nextNode := Some b\<rparr>, b \<mapsto> nb)"
  from Cons.prems(1) p have "chain ns (Some a) (a # as)" by simp
  then have notin: "a \<notin> set as" by (rule chain_head_notin)
  from Cons.prems(4) have ab: "a \<noteq> b" by auto
  show ?case
  proof (cases "as = []")
    case True
    with rest have "n_nextNode n = None" by simp
    with True Cons.prems(3) n have tn: "tn = n" "n_nextNode tn = None" by auto
    have "?ns a = Some (tn\<lparr>n_nextNode := Some b\<rparr>)" using True ab by simp
    moreover have "chain ?ns (Some b) [b]"
      using Cons.prems(5) by (simp only: chain_Cons chain.simps) simp
    ultimately have "chain ?ns (Some a) (a # [b])"
      by (simp only: chain_Cons) simp
    with p True show ?thesis by (simp only: append_Cons append_Nil)
  next
    case False
    with notin have ne: "a \<noteq> last as" using last_in_set by metis
    have "chain (ns(last as \<mapsto> tn\<lparr>n_nextNode := Some b\<rparr>, b \<mapsto> nb)) (n_nextNode n) (as @ [b])"
      using False Cons.prems by (intro Cons.IH rest) auto
    then have tl: "chain ?ns (n_nextNode n) (as @ [b])" using False by simp
    have "?ns a = Some n" using n ne ab False by simp
    with tl have "chain ?ns (Some a) (a # (as @ [b]))"
      by (simp only: chain_Cons) blast
    with p show ?thesis by (simp only: append_Cons)
  qed
qed

lemma elem_of_same:
  "cell_at h' = cell_at h \<Longrightarrow> brk h' = brk h \<Longrightarrow> elem_of ty h' p = elem_of ty h p"
  by (simp add: elem_of_def cong: option.case_cong)

lemma elem_of_frame:
  assumes "elem_of ty h p = Some e"
    and "\<And>v. v < brk h \<Longrightarrow> cell_at h' v = cell_at h v" and "brk h \<le> brk h'"
  shows "elem_of ty h' p = Some e"
  using assms by (auto simp: elem_of_def split: option.splits if_splits)

lemma elem_of_owned:
  assumes "elem_of ty h p = Some e" and "ty \<noteq> T"
  shows "\<exists>v c. p = Some v \<and> cell_at h v = Some c \<and> v < brk h \<and> e = Held c"
  using assms by (auto simp: elem_of_def split: option.splits if_splits)

lemma holds_length: "holds h l as es \<Longrightarrow> length es = length as"
  by (auto simp: holds_def split: option.splits dest: map_eq_imp_length_eq)

lemma holds_nth:
  assumes "holds h l as es" and "list_at h l = Some L" and "k < length as"
  shows "elem_of (l_type L) h (node_val h (as ! k)) = Some (es ! k)"
proof -
  from assms have eq: "map (\<lambda>a. elem_of (l_type L) h (node_val h a)) as = map Some es"
    by (simp add: holds_def)
  then have "length as = length es" by (metis length_map)
  with eq assms(3) show ?thesis by (metis nth_map)
qed

lemma holds_frame:
  assumes "holds h l as es"
    and same: "\<And>a. a < brk h \<Longrightarrow>
          list_at h' a = list_at h a \<and> node_at h' a = node_at h a \<and> cell_at h' a = cell_at h a"
    and le: "brk h \<le> brk h'"
  shows "holds h' l as es"
proof -
  from assms(1) obtain L where L: "list_at h l = Some L" and l: "l < brk h"
    and wf: "is_list h l as" and bound: "list_all (\<lambda>a. a < brk h) as"
    and sz: "l_size L = sizeof (l_type L)"
    and el: "map (\<lambda>a. elem_of (l_type L) h (node_val h a)) as = map Some es"
    by (auto simp: holds_def split: option.splits)
  have L': "list_at h' l = Some L" using same[OF l] L by simp
  have nodes: "\<And>a. a \<in> set as \<Longrightarrow> node_at h' a = node_at h a"
    using bound same by (auto simp: list_all_iff)
  then have "chain (node_at h') (l_head L) as = chain (node_at h) (l_head L) as"
    by (intro chain_same) simp
  with wf L L' have wf': "is_list h' l as" by (simp add: is_list_def)
  have "map (\<lambda>a. elem_of (l_type L) h' (node_val h' a)) as = map Some es"
  proof -
    have "\<And>a. a \<in> set as \<Longrightarrow>
        elem_of (l_type L) h' (node_val h' a) = elem_of (l_type L) h (node_val h a)"
    proof -
      fix a assume a: "a \<in> set as"
      then obtain e where "elem_of (l_type L) h (node_val h a) = Some e"
        using el by (metis (no_types, lifting) in_set_conv_nth length_map nth_map)
      then have "elem_of (l_type L) h' (node_val h a) = Some e"
        by (rule elem_of_frame) (use same le in auto)
      moreover have "node_val h' a = node_val h a" using nodes[OF a] by (simp add: node_val_def)
      ultimately show "elem_of (l_type L) h' (node_val h' a) = elem_of (l_type L) h (node_val h a)"
        using \<open>elem_of (l_type L) h (node_val h a) = Some e\<close> by simp
    qed
    then have "map (\<lambda>a. elem_of (l_type L) h' (node_val h' a)) as =
        map (\<lambda>a. elem_of (l_type L) h (node_val h a)) as" by (intro map_cong) simp_all
    with el show ?thesis by simp
  qed
  moreover have "list_all (\<lambda>a. a < brk h') as" using bound le by (auto simp: list_all_iff)
  ultimately show ?thesis using wf' L' sz l le by (simp add: holds_def)
qed


lemma new_list_heap_built: "newList type (empty_heap (Suc n)) = Inr (0, new_list_heap type n)"
  by (simp add: newList_def malloc_def empty_heap_def new_list_heap_def)

lemma holds_new_list: "holds (new_list_heap type n) 0 [] []"
  by (simp add: holds_def is_list_def new_list_heap_def INT_MAX_def)

lemma two_ints_built:
  "and_then (newList INT_t (empty_heap 10))
     (\<lambda>(l, h). push_all d2f (Some l) [IntArg 10, IntArg 20] h) = Inr two_ints"
  by (auto simp: two_ints_def and_then_def newList_def malloc_def empty_heap_def push_def
      newNode_def underPush_def length_incr_def INT_MAX_def fun_eq_iff)

lemma spent_iterator_built:
  "and_then (newIterator (Some 0) two_ints) (\<lambda>(it, h). drain (Some it) 2 h) =
     Inr ([(True, Some 2), (True, Some 4)], spent_iterator)"
  by (auto simp: two_ints_def spent_iterator_def and_then_def newIterator_def malloc_def
      hasNext_def next_it_def INT_MAX_def numeral_2_eq_2 fun_eq_iff)

lemma holds_two_ints: "holds two_ints 0 [1, 3] [Held (IntC 10), Held (IntC 20)]"
  by (simp add: holds_def is_list_def two_ints_def elem_of_def node_val_def INT_MAX_def)

lemma front_inserted_built:
  "and_then (newList INT_t (empty_heap 9)) (\<lambda>(l, h). insert_l d2f (Some l) 0 (IntArg 7) h) =
     Inr front_inserted"
  by (auto simp: front_inserted_def and_then_def newList_def malloc_def empty_heap_def
      insert_l_def len_def newNode_def underInsert_def length_incr_def INT_MAX_def fun_eq_iff)

lemma stale_tail_built:
  "and_then (newList INT_t (empty_heap 12)) (\<lambda>(l, h).
     and_then (push d2f (Some l) (IntArg 1) h) (\<lambda>h1.
       insert_l d2f (Some l) 1 (IntArg 2) h1)) = Inr stale_tail"
  by (auto simp: stale_tail_def and_then_def newList_def malloc_def empty_heap_def push_def
      underPush_def insert_l_def len_def newNode_def underInsert_def
      underInsert_loop.simps[of _ _ _ "Some _"] length_incr_def INT_MAX_def fun_eq_iff)

lemma two_refs_built:
  "and_then (newList T (empty_heap 9))
     (\<lambda>(l, h). push_all d2f (Some l) [PtrArg (Some 40), PtrArg (Some 41)] h) = Inr two_refs"
  by (auto simp: two_refs_def and_then_def newList_def malloc_def empty_heap_def push_def
      newNode_def underPush_def length_incr_def INT_MAX_def fun_eq_iff)

lemma not_is_list_stale_tail: "\<not> is_list stale_tail 0 as"
proof
  assume "is_list stale_tail 0 as"
  then have "chain (node_at stale_tail) (l_head (the (list_at stale_tail 0))) as"
    and "l_tail (the (list_at stale_tail 0)) = (if as = [] then None else Some (last as))"
    by (auto simp: is_list_def split: option.splits)
  then have ch: "chain (node_at stale_tail) (Some 1) as"
    and tl: "Some (1::addr) = (if as = [] then None else Some (last as))"
    by (simp_all add: stale_tail_def)
  have "chain (node_at stale_tail) (Some 1) [1, 3]" by (simp add: stale_tail_def)
  with ch have "as = [1, 3]" by (rule chain_unique)
  with tl show False by simp
qed

section \<open>The iterator\<close>

lemma drain_exhausted:
  "iter_at h it = Some I \<Longrightarrow> i_current I = None \<Longrightarrow>
   drain (Some it) k h = Inr (replicate k (False, None), h\<lparr>stderr := stderr h @ replicate k NoMoreElements\<rparr>)"
proof (induction k arbitrary: h)
  case 0
  then show ?case by simp
next
  case (Suc k)
  have "iter_at (report NoMoreElements h) it = Some I" using Suc.prems by (simp add: report_def)
  from Suc.IH[OF this Suc.prems(2)] Suc.prems
  show ?case by (simp add: next_it_def hasNext_def report_def replicate_app_Cons_same)
qed

lemma drain_chain:
  "iter_at h it = Some I \<Longrightarrow> chain (node_at h) (i_current I) as \<Longrightarrow>
   i_index I + int (length as) \<le> INT_MAX \<Longrightarrow>
   drain (Some it) (length as + m) h =
     Inr (map (\<lambda>a. (True, node_val h a)) as @ replicate m (False, None),
          h\<lparr>iter_at := (iter_at h)(it \<mapsto>
               I\<lparr>i_index := i_index I + int (length as), i_current := None\<rparr>),
            stderr := stderr h @ replicate m NoMoreElements\<rparr>)"
proof (induction as arbitrary: h I)
  case Nil
  then have I: "I\<lparr>i_current := None\<rparr> = I"
    by simp
  have "(iter_at h)(it \<mapsto> I) = iter_at h"
    using Nil.prems(1) by (rule map_upd_triv)
  then have upd: "h\<lparr>iter_at := (iter_at h)(it \<mapsto> I)\<rparr> = h"
    by simp
  from Nil.prems have "drain (Some it) m h =
      Inr (replicate m (False, None), h\<lparr>stderr := stderr h @ replicate m NoMoreElements\<rparr>)"
    by (intro drain_exhausted) simp_all
  then show ?case
    using Nil.prems(1) by (auto simp: I fun_eq_iff)
next
  case (Cons a as)
  from Cons.prems obtain n where cur: "i_current I = Some a" and n: "node_at h a = Some n"
    and rest: "chain (node_at h) (n_nextNode n) as" by auto
  let ?I' = "I\<lparr>i_index := i_index I + 1, i_current := n_nextNode n\<rparr>"
  let ?h' = "h\<lparr>iter_at := (iter_at h)(it \<mapsto> ?I')\<rparr>"
  have nx: "next_it (Some it) h = Inr (n_val n, ?h')"
    using Cons.prems cur n by (simp add: next_it_def)
  have hn: "hasNext (Some it) h = Inr True"
    using Cons.prems cur by (simp add: hasNext_def)
  have "drain (Some it) (length as + m) ?h' =
     Inr (map (\<lambda>a. (True, node_val ?h' a)) as @ replicate m (False, None),
          ?h'\<lparr>iter_at := (iter_at ?h')(it \<mapsto>
               ?I'\<lparr>i_index := i_index ?I' + int (length as), i_current := None\<rparr>),
            stderr := stderr ?h' @ replicate m NoMoreElements\<rparr>)"
    by (rule Cons.IH) (use Cons.prems rest in simp_all)
  then show ?case
    using nx hn n by (auto simp: node_val_def add.assoc fun_eq_iff)
qed

text \<open>
  C10: on an iterator whose cursor is exhausted, \<^verbatim>\<open>next\<close> returns \<^verbatim>\<open>NULL\<close> and leaves
  the iterator, the list and every other structure as they were (the returned store differs
  from the given one in the line written to \<^verbatim>\<open>stderr\<close> only); \<^verbatim>\<open>hasNext\<close> is false
  afterwards, and any number \<open>k\<close> of further rounds of \<^verbatim>\<open>hasNext\<close> and \<^verbatim>\<open>next\<close> keep
  answering false and \<^verbatim>\<open>NULL\<close>.
\<close>

theorem next_exhausted_unchanged:
  assumes "iter_at h it = Some I" and "i_current I = None"
  shows "next_it (Some it) h = Inr (None, h\<lparr>stderr := stderr h @ [NoMoreElements]\<rparr>) \<and>
         hasNext (Some it) (h\<lparr>stderr := stderr h @ [NoMoreElements]\<rparr>) = Inr False \<and>
         drain (Some it) k h =
           Inr (replicate k (False, None),
                h\<lparr>stderr := stderr h @ replicate k NoMoreElements\<rparr>)"
  using assms drain_exhausted[OF assms, of k]
  by (simp add: next_it_def hasNext_def report_def)

theorem next_exhausted_unchanged_witness:
  "iter_at spent_iterator 5 = Some \<lparr>i_list = Some 0, i_current = None, i_index = 2\<rparr> \<and>
   i_current \<lparr>i_list = Some 0, i_current = None, i_index = 2\<rparr> = None \<and>
   next_it (Some 5) spent_iterator =
     Inr (None, spent_iterator\<lparr>stderr := stderr spent_iterator @ [NoMoreElements]\<rparr>) \<and>
   hasNext (Some 5) (spent_iterator\<lparr>stderr := stderr spent_iterator @ [NoMoreElements]\<rparr>) =
     Inr False \<and>
   drain (Some 5) 3 spent_iterator =
     Inr (replicate 3 (False, None),
          spent_iterator\<lparr>stderr := stderr spent_iterator @ replicate 3 NoMoreElements\<rparr>)"
proof -
  have a: "iter_at spent_iterator 5 = Some \<lparr>i_list = Some 0, i_current = None, i_index = 2\<rparr>"
    by (simp add: spent_iterator_def)
  have b: "i_current \<lparr>i_list = Some 0, i_current = None, i_index = 2\<rparr> = None"
    by simp
  show ?thesis
    using next_exhausted_unchanged[OF a b, of 3] a b by simp
qed

text \<open>
  C6: take any list structure and the nodes \<open>as\<close> on the chain from its \<^verbatim>\<open>_head\<close>, \<open>n\<close>
  of them (the tail pointer and the stored length play no part). An iterator created on
  the list, the list not being changed meanwhile, answers \<open>n + m\<close> rounds of \<^verbatim>\<open>hasNext\<close>
  and \<^verbatim>\<open>next\<close> as follows: in the first \<open>n\<close> rounds \<^verbatim>\<open>hasNext\<close> is true and \<^verbatim>\<open>next\<close>
  returns the value pointers of the nodes in list order; in every later round
  \<^verbatim>\<open>hasNext\<close> is false and \<^verbatim>\<open>next\<close> returns \<^verbatim>\<open>NULL\<close>, reporting the exhaustion on
  \<^verbatim>\<open>stderr\<close>. Lists, nodes and value storage are as before, so whatever elements \<open>es\<close>
  could be read from the nodes are the elements read from the pointers returned. The
  hypotheses: \<^verbatim>\<open>malloc\<close> has room for the iterator, and \<open>n\<close> is an \<^verbatim>\<open>int\<close>.
\<close>

theorem iterator_yields_all:
  assumes "list_at h l = Some L" and "chain (node_at h) (l_head L) as"
    and "int (length as) \<le> INT_MAX" and "0 < avail h"
  shows "\<exists>it h1 rs h2.
      newIterator (Some l) h = Inr (it, h1) \<and>
      drain (Some it) (length as + m) h1 = Inr (rs, h2) \<and>
      map fst rs = replicate (length as) True @ replicate m False \<and>
      map snd rs = map (node_val h) as @ replicate m None \<and>
      stderr h2 = stderr h @ replicate m NoMoreElements \<and>
      list_at h2 = list_at h \<and> node_at h2 = node_at h \<and> cell_at h2 = cell_at h \<and>
      (\<forall>es. map (\<lambda>a. elem_of (l_type L) h (node_val h a)) as = map Some es \<longrightarrow>
         map (\<lambda>r. elem_of (l_type L) h2 (snd r)) (take (length as) rs) = map Some es)"
proof -
  let ?I = "\<lparr>i_list = Some l, i_current = l_head L, i_index = 0\<rparr>"
  let ?h1 = "h\<lparr>brk := Suc (brk h), avail := avail h - 1,
              iter_at := (iter_at h)(brk h \<mapsto> ?I)\<rparr>"
  let ?rs = "map (\<lambda>a. (True, node_val ?h1 a)) as @ replicate m (False, None)"
  let ?h2 = "?h1\<lparr>iter_at := (iter_at ?h1)(brk h \<mapsto>
               ?I\<lparr>i_index := i_index ?I + int (length as), i_current := None\<rparr>),
            stderr := stderr ?h1 @ replicate m NoMoreElements\<rparr>"
  have new: "newIterator (Some l) h = Inr (brk h, ?h1)"
    using assms by (simp add: newIterator_def malloc_def)
  have dr: "drain (Some (brk h)) (length as + m) ?h1 = Inr (?rs, ?h2)"
    by (rule drain_chain) (use assms in simp_all)
  have fsts: "map fst ?rs = replicate (length as) True @ replicate m False"
    by (simp add: comp_def map_replicate_const)
  have snds: "map snd ?rs = map (node_val h) as @ replicate m None"
    by (simp add: comp_def node_val_def)
  have err: "stderr ?h2 = stderr h @ replicate m NoMoreElements"
    by simp
  have same: "list_at ?h2 = list_at h" "node_at ?h2 = node_at h" "cell_at ?h2 = cell_at h"
    by simp_all
  have vals: "\<forall>es. map (\<lambda>a. elem_of (l_type L) h (node_val h a)) as = map Some es \<longrightarrow>
      map (\<lambda>r. elem_of (l_type L) ?h2 (snd r)) (take (length as) ?rs) = map Some es"
  proof (intro allI impI)
    fix es
    assume el: "map (\<lambda>a. elem_of (l_type L) h (node_val h a)) as = map Some es"
    have "\<And>a. a \<in> set as \<Longrightarrow>
        elem_of (l_type L) ?h2 (node_val h a) = elem_of (l_type L) h (node_val h a)"
    proof -
      fix a assume "a \<in> set as"
      then obtain k where k: "k < length as" "a = as ! k" by (auto simp: in_set_conv_nth)
      from el have "length es = length as" by (metis length_map)
      with el k have s: "elem_of (l_type L) h (node_val h a) = Some (es ! k)" by (metis nth_map)
      then have "elem_of (l_type L) ?h2 (node_val h a) = Some (es ! k)"
        by (rule elem_of_frame) simp_all
      with s show "elem_of (l_type L) ?h2 (node_val h a) = elem_of (l_type L) h (node_val h a)"
        by simp
    qed
    then have "map (\<lambda>a. elem_of (l_type L) ?h2 (node_val h a)) as =
        map (\<lambda>a. elem_of (l_type L) h (node_val h a)) as" by (intro map_cong) simp_all
    with el have "map (\<lambda>a. elem_of (l_type L) ?h2 (node_val h a)) as = map Some es" by simp
    then show "map (\<lambda>r. elem_of (l_type L) ?h2 (snd r)) (take (length as) ?rs) = map Some es"
      by (simp add: comp_def node_val_def)
  qed
  from new dr fsts snds err same vals show ?thesis by blast
qed

theorem iterator_yields_all_witness:
  "list_at front_inserted 0 =
     Some \<lparr>l_head = Some 1, l_tail = None, l_type = INT_t, l_size = 4, l_length = 1\<rparr> \<and>
   chain (node_at front_inserted) (Some 1) [1] \<and>
   int (length [1::addr]) \<le> INT_MAX \<and>
   0 < avail front_inserted \<and>
   (\<exists>it h1 rs h2.
      newIterator (Some 0) front_inserted = Inr (it, h1) \<and>
      drain (Some it) (1 + 2) h1 = Inr (rs, h2) \<and>
      map fst rs = [True, False, False] \<and>
      map snd rs = [Some 2, None, None] \<and>
      stderr h2 = [NoMoreElements, NoMoreElements] \<and>
      list_at h2 = list_at front_inserted \<and> node_at h2 = node_at front_inserted \<and>
      cell_at h2 = cell_at front_inserted \<and>
      map (\<lambda>r. elem_of INT_t h2 (snd r)) (take 1 rs) = [Some (Held (IntC 7))])"
proof -
  let ?L = "\<lparr>l_head = Some 1, l_tail = None, l_type = INT_t, l_size = 4, l_length = 1\<rparr>"
  have a: "list_at front_inserted 0 = Some ?L" by (simp add: front_inserted_def)
  have b: "chain (node_at front_inserted) (l_head ?L) [1]" by (simp add: front_inserted_def)
  have c: "int (length [1::addr]) \<le> INT_MAX" by (simp add: INT_MAX_def)
  have d: "0 < avail front_inserted" by (simp add: front_inserted_def)
  have e: "map (\<lambda>a. elem_of (l_type ?L) front_inserted (node_val front_inserted a)) [1] =
      map Some [Held (IntC 7)]"
    by (simp add: front_inserted_def elem_of_def node_val_def)
  have f: "stderr front_inserted = []" "node_val front_inserted 1 = Some 2"
    by (simp_all add: front_inserted_def node_val_def)
  from iterator_yields_all[OF a b c d, of 2] obtain it h1 rs h2 where
    r: "newIterator (Some 0) front_inserted = Inr (it, h1)"
      "drain (Some it) (length [1::addr] + 2) h1 = Inr (rs, h2)"
      "map fst rs = replicate (length [1::addr]) True @ replicate 2 False"
      "map snd rs = map (node_val front_inserted) [1] @ replicate 2 None"
      "stderr h2 = stderr front_inserted @ replicate 2 NoMoreElements"
      "list_at h2 = list_at front_inserted" "node_at h2 = node_at front_inserted"
      "cell_at h2 = cell_at front_inserted"
    and v: "\<forall>es. map (\<lambda>a. elem_of (l_type ?L) front_inserted (node_val front_inserted a)) [1] =
          map Some es \<longrightarrow>
        map (\<lambda>r. elem_of (l_type ?L) h2 (snd r)) (take (length [1::addr]) rs) = map Some es"
    by blast
  from v e have "map (\<lambda>r. elem_of (l_type ?L) h2 (snd r)) (take (length [1::addr]) rs) =
      map Some [Held (IntC 7)]" by blast
  with r f have "newIterator (Some 0) front_inserted = Inr (it, h1) \<and>
      drain (Some it) (1 + 2) h1 = Inr (rs, h2) \<and>
      map fst rs = [True, False, False] \<and>
      map snd rs = [Some 2, None, None] \<and>
      stderr h2 = [NoMoreElements, NoMoreElements] \<and>
      list_at h2 = list_at front_inserted \<and> node_at h2 = node_at front_inserted \<and>
      cell_at h2 = cell_at front_inserted \<and>
      map (\<lambda>r. elem_of INT_t h2 (snd r)) (take 1 rs) = [Some (Held (IntC 7))]"
    by (simp add: numeral_2_eq_2)
  with a b c d show ?thesis by auto
qed

section \<open>\<^verbatim>\<open>push\<close> and \<^verbatim>\<open>pop\<close>\<close>

lemma newNode_owned:
  assumes "stored d2f ty h arg = Some e" and "ty \<noteq> T" and "2 \<le> avail h"
  shows "\<exists>val c. e = Held c \<and> va_value d2f ty arg = Inr val \<and>
      newNode val sz ty h =
        Inr (brk h, h\<lparr>brk := Suc (Suc (brk h)), avail := avail h - 2,
               cell_at := (cell_at h)(Suc (brk h) \<mapsto> c),
               node_at := (node_at h)(brk h \<mapsto> \<lparr>n_val = Some (Suc (brk h)), n_nextNode = None\<rparr>)\<rparr>)"
  using assms
  by (cases "(d2f, ty, h, arg)" rule: stored.cases)
     (auto simp: newNode_def malloc_def split: option.splits cell.splits if_splits)

lemma newNode_T:
  assumes "stored d2f T h arg = Some e" and "1 \<le> avail h"
  shows "\<exists>p. e = Ref p \<and> va_value d2f T arg = Inr (Ptr p) \<and>
      newNode (Ptr p) sz T h =
        Inr (brk h, h\<lparr>brk := Suc (brk h), avail := avail h - 1,
               node_at := (node_at h)(brk h \<mapsto> \<lparr>n_val = p, n_nextNode = None\<rparr>)\<rparr>)"
  using assms
  by (cases arg) (auto simp: newNode_def malloc_def)

lemma newNode_ok:
  assumes "stored d2f ty h arg = Some e" and "allocs ty \<le> avail h"
  shows "\<exists>val pv h1. va_value d2f ty arg = Inr val \<and> newNode val sz ty h = Inr (brk h, h1) \<and>
      node_at h1 = (node_at h)(brk h \<mapsto> \<lparr>n_val = pv, n_nextNode = None\<rparr>) \<and>
      list_at h1 = list_at h \<and> iter_at h1 = iter_at h \<and> stderr h1 = stderr h \<and>
      brk h1 = brk h + allocs ty \<and> avail h1 = avail h - allocs ty \<and>
      (\<forall>q. q < brk h \<longrightarrow> cell_at h1 q = cell_at h q) \<and>
      elem_of ty h1 pv = Some e \<and> (ty \<noteq> T \<longrightarrow> pv = Some (Suc (brk h)))"
proof (cases "ty = T")
  case True
  let ?h1 = "\<lambda>p. h\<lparr>brk := Suc (brk h), avail := avail h - 1,
               node_at := (node_at h)(brk h \<mapsto> \<lparr>n_val = p, n_nextNode = None\<rparr>)\<rparr>"
  from True assms obtain p where "e = Ref p" "va_value d2f T arg = Inr (Ptr p)"
    "newNode (Ptr p) sz T h = Inr (brk h, ?h1 p)"
    using newNode_T[of d2f h arg e sz] by (auto simp: allocs_def)
  with True show ?thesis
    by (intro exI[of _ "Ptr p"] exI[of _ p] exI[of _ "?h1 p"]) (simp add: allocs_def elem_of_def)
next
  case False
  let ?h1 = "\<lambda>c. h\<lparr>brk := Suc (Suc (brk h)), avail := avail h - 2,
               cell_at := (cell_at h)(Suc (brk h) \<mapsto> c),
               node_at := (node_at h)(brk h \<mapsto> \<lparr>n_val = Some (Suc (brk h)), n_nextNode = None\<rparr>)\<rparr>"
  from False assms obtain val c where "e = Held c" "va_value d2f ty arg = Inr val"
    "newNode val sz ty h = Inr (brk h, ?h1 c)"
    using newNode_owned[of d2f ty h arg e sz] by (auto simp: allocs_def)
  with False show ?thesis
    by (intro exI[of _ val] exI[of _ "Some (Suc (brk h))"] exI[of _ "?h1 c"])
       (simp add: allocs_def elem_of_def)
qed

lemma underPush_ok:
  assumes wf: "is_list h l as" and L: "list_at h l = Some L"
    and nb: "node_at h b = Some nb" "n_nextNode nb = None"
    and fresh: "b \<notin> set as" and len: "int (length as) < INT_MAX"
  shows "\<exists>h' L'. underPush l b h = Inr h' \<and> is_list h' l (as @ [b]) \<and>
      list_at h' = (list_at h)(l \<mapsto> L') \<and> l_type L' = l_type L \<and> l_size L' = l_size L \<and>
      cell_at h' = cell_at h \<and> brk h' = brk h \<and> avail h' = avail h \<and>
      iter_at h' = iter_at h \<and> stderr h' = stderr h \<and>
      (\<forall>a. node_val h' a = node_val h a) \<and>
      (\<forall>a. a \<notin> set as \<longrightarrow> node_at h' a = node_at h a)"
proof -
  from wf L have ch: "chain (node_at h) (l_head L) as"
    and tl: "l_tail L = (if as = [] then None else Some (last as))"
    and ln: "l_length L = int (length as)"
    by (auto simp: is_list_def)
  have mx: "\<not> INT_MAX \<le> l_length L" using ln len by simp
  show ?thesis
  proof (cases "as = []")
    case True
    let ?L' = "L\<lparr>l_head := Some b, l_tail := Some b, l_length := l_length L + 1\<rparr>"
    let ?h' = "h\<lparr>list_at := (list_at h)(l \<mapsto> ?L')\<rparr>"
    from True ch have hd: "l_head L = None" by simp
    have up: "underPush l b h = Inr ?h'"
      using L hd mx by (simp add: underPush_def length_incr_def)
    have "chain (node_at h) (Some b) [b]" using nb by simp
    then have "is_list ?h' l (as @ [b])"
      using True ln len by (simp add: is_list_def)
    with up show ?thesis
      by (intro exI[of _ ?h'] exI[of _ ?L']) (simp add: node_val_def)
  next
    case False
    then have "last as \<in> set as" by simp
    with ch obtain tn where tn: "node_at h (last as) = Some tn" using chain_alloc by blast
    let ?L' = "L\<lparr>l_tail := Some b, l_length := l_length L + 1\<rparr>"
    let ?ns = "(node_at h)(last as \<mapsto> tn\<lparr>n_nextNode := Some b\<rparr>)"
    let ?h' = "h\<lparr>node_at := ?ns, list_at := (list_at h)(l \<mapsto> ?L')\<rparr>"
    from False ch have hd: "l_head L = Some (hd as)" by (rule chain_nonempty[rotated])
    have up: "underPush l b h = Inr ?h'"
      using L hd tl tn mx False by (simp add: underPush_def length_incr_def)
    have ne: "b \<noteq> last as" using fresh \<open>last as \<in> set as\<close> by auto
    have "chain (?ns(b \<mapsto> nb)) (l_head L) (as @ [b])"
      using ch False tn fresh nb(2) by (rule chain_snoc)
    moreover have "?ns(b \<mapsto> nb) = ?ns" using nb(1) ne by (auto simp: fun_eq_iff)
    ultimately have "chain ?ns (l_head L) (as @ [b])" by simp
    then have wf': "is_list ?h' l (as @ [b])"
      using ln len by (simp add: is_list_def)
    have vals: "\<forall>a. node_val ?h' a = node_val h a"
      using tn by (simp add: node_val_def)
    have frame: "\<forall>a. a \<notin> set as \<longrightarrow> node_at ?h' a = node_at h a"
      using \<open>last as \<in> set as\<close> by auto
    from up wf' vals frame show ?thesis
      by (intro exI[of _ ?h'] exI[of _ ?L']) simp
  qed
qed

lemma push_ok:
  assumes hl: "holds h l as es" and L: "list_at h l = Some L"
    and st: "stored d2f (l_type L) h arg = Some e"
    and av: "allocs (l_type L) \<le> avail h" and len: "int (length as) < INT_MAX"
  shows "\<exists>h' L'. push d2f (Some l) arg h = Inr h' \<and> holds h' l (as @ [brk h]) (es @ [e]) \<and>
      list_at h' = (list_at h)(l \<mapsto> L') \<and> l_type L' = l_type L \<and>
      brk h' = brk h + allocs (l_type L) \<and> avail h' = avail h - allocs (l_type L) \<and>
      iter_at h' = iter_at h \<and> stderr h' = stderr h \<and>
      (\<forall>q. q < brk h \<longrightarrow> cell_at h' q = cell_at h q) \<and>
      (\<forall>a. a \<noteq> brk h \<longrightarrow> node_val h' a = node_val h a) \<and>
      (\<forall>a. a \<notin> set as \<longrightarrow> a \<noteq> brk h \<longrightarrow> node_at h' a = node_at h a) \<and>
      (l_type L \<noteq> T \<longrightarrow> node_val h' (brk h) = Some (Suc (brk h)))"
proof -
  let ?ty = "l_type L"
  from hl L have wf: "is_list h l as" and lb: "l < brk h"
    and bound: "list_all (\<lambda>a. a < brk h) as" and sz: "l_size L = sizeof ?ty"
    and el: "map (\<lambda>a. elem_of ?ty h (node_val h a)) as = map Some es"
    by (auto simp: holds_def)
  from bound have fresh: "brk h \<notin> set as" by (auto simp: list_all_iff)
  from newNode_ok[OF st av, of "l_size L"] obtain val pv h1 where
    va: "va_value d2f ?ty arg = Inr val" and nn: "newNode val (l_size L) ?ty h = Inr (brk h, h1)"
    and n1: "node_at h1 = (node_at h)(brk h \<mapsto> \<lparr>n_val = pv, n_nextNode = None\<rparr>)"
    and l1: "list_at h1 = list_at h" and i1: "iter_at h1 = iter_at h" and e1: "stderr h1 = stderr h"
    and b1: "brk h1 = brk h + allocs ?ty" and a1: "avail h1 = avail h - allocs ?ty"
    and c1: "\<forall>q. q < brk h \<longrightarrow> cell_at h1 q = cell_at h q"
    and pv: "elem_of ?ty h1 pv = Some e" and own: "?ty \<noteq> T \<longrightarrow> pv = Some (Suc (brk h))"
    by blast
  have "chain (node_at h1) (l_head L) as = chain (node_at h) (l_head L) as"
    using fresh n1 by (intro chain_same) auto
  with wf L l1 have wf1: "is_list h1 l as" by (simp add: is_list_def)
  have L1: "list_at h1 l = Some L" using L l1 by simp
  have nb: "node_at h1 (brk h) = Some \<lparr>n_val = pv, n_nextNode = None\<rparr>" using n1 by simp
  from underPush_ok[OF wf1 L1 nb _ fresh len] obtain h' L' where
    up: "underPush l (brk h) h1 = Inr h'" and wf': "is_list h' l (as @ [brk h])"
    and l': "list_at h' = (list_at h1)(l \<mapsto> L')" and ty': "l_type L' = ?ty"
    and sz': "l_size L' = l_size L"
    and c': "cell_at h' = cell_at h1" and b': "brk h' = brk h1" and a': "avail h' = avail h1"
    and i': "iter_at h' = iter_at h1" and e': "stderr h' = stderr h1"
    and v': "\<forall>a. node_val h' a = node_val h1 a"
    and f': "\<forall>a. a \<notin> set as \<longrightarrow> node_at h' a = node_at h1 a"
    by auto
  have push: "push d2f (Some l) arg h = Inr h'"
    using L va nn up by (simp add: push_def)
  have vold: "\<And>a. a \<noteq> brk h \<Longrightarrow> node_val h' a = node_val h a"
    using v' n1 by (simp add: node_val_def)
  have vnew: "node_val h' (brk h) = pv"
    using v' n1 by (simp add: node_val_def)
  have le: "brk h \<le> brk h'" using b' b1 by simp
  have cells: "\<And>q. q < brk h \<Longrightarrow> cell_at h' q = cell_at h q" using c' c1 by simp
  have olds: "map (\<lambda>a. elem_of ?ty h' (node_val h' a)) as = map Some es"
  proof -
    have "\<And>a. a \<in> set as \<Longrightarrow>
        elem_of ?ty h' (node_val h' a) = elem_of ?ty h (node_val h a)"
    proof -
      fix a assume a: "a \<in> set as"
      then obtain k where k: "k < length as" "a = as ! k" by (auto simp: in_set_conv_nth)
      then have s: "elem_of ?ty h (node_val h a) = Some (es ! k)"
        using holds_nth[OF hl L] by simp
      then have "elem_of ?ty h' (node_val h a) = Some (es ! k)"
        by (rule elem_of_frame) (use cells le in auto)
      moreover have "node_val h' a = node_val h a" using a fresh by (intro vold) auto
      ultimately show "elem_of ?ty h' (node_val h' a) = elem_of ?ty h (node_val h a)"
        using s by simp
    qed
    then have "map (\<lambda>a. elem_of ?ty h' (node_val h' a)) as =
        map (\<lambda>a. elem_of ?ty h (node_val h a)) as" by (intro map_cong) simp_all
    with el show ?thesis by simp
  qed
  have new: "elem_of ?ty h' (node_val h' (brk h)) = Some e"
    using pv vnew elem_of_same[OF c' b'] by simp
  have bound': "list_all (\<lambda>a. a < brk h') (as @ [brk h])"
    using bound b' b1 by (auto simp: list_all_iff allocs_def)
  have "holds h' l (as @ [brk h]) (es @ [e])"
    using wf' lb le bound' l' ty' sz' sz olds new by (simp add: holds_def)
  moreover have "\<forall>a. a \<notin> set as \<longrightarrow> a \<noteq> brk h \<longrightarrow> node_at h' a = node_at h a"
    using f' n1 by simp
  ultimately show ?thesis
    using push l' l1 ty' b' b1 a' a1 i' i1 e' e1 cells vold vnew own
    by (intro exI[of _ h'] exI[of _ L']) simp
qed

lemma pop_ok:
  assumes hl: "holds h l (a # as) (e # es)" and L: "list_at h l = Some L"
  shows "\<exists>p h' L'. pop (Some l) h = Inr (p, h') \<and> elem_of (l_type L) h' p = Some e \<and>
      holds h' l as es \<and> list_at h' = (list_at h)(l \<mapsto> L') \<and> l_type L' = l_type L \<and>
      cell_at h' = cell_at h \<and> brk h' = brk h \<and> avail h' = avail h \<and> stderr h' = stderr h"
proof -
  let ?ty = "l_type L"
  from hl L have ch: "chain (node_at h) (l_head L) (a # as)"
    and tl: "l_tail L = Some (last (a # as))"
    and ln: "l_length L = int (length (a # as))" and mx: "l_length L \<le> INT_MAX"
    and lb: "l < brk h" and bound: "list_all (\<lambda>a. a < brk h) (a # as)"
    and sz: "l_size L = sizeof ?ty"
    and el: "map (\<lambda>a. elem_of ?ty h (node_val h a)) (a # as) = map Some (e # es)"
    by (auto simp: holds_def is_list_def)
  from ch obtain n where hd: "l_head L = Some a" and n: "node_at h a = Some n"
    and rest: "chain (node_at h) (n_nextNode n) as" by auto
  from ch hd have "chain (node_at h) (Some a) (a # as)" by simp
  then have notin: "a \<notin> set as" by (rule chain_head_notin)
  let ?L' = "L\<lparr>l_head := n_nextNode n, l_length := l_length L - 1,
               l_tail := (if n_nextNode n = None then None else l_tail L)\<rparr>"
  let ?h' = "h\<lparr>node_at := (node_at h)(a := None), list_at := (list_at h)(l \<mapsto> ?L')\<rparr>"
  have min: "\<not> l_length L \<le> INT_MIN" using ln by (simp add: INT_MIN_def)
  have pop: "pop (Some l) h = Inr (n_val n, ?h')"
    using L hd n min by (cases L) (auto simp: pop_def length_decr_def)
  have "chain (node_at ?h') (n_nextNode n) as = chain (node_at h) (n_nextNode n) as"
    using notin by (intro chain_same) auto
  with rest have ch': "chain (node_at ?h') (n_nextNode n) as" by simp
  have emp: "(n_nextNode n = None) = (as = [])" using rest by (cases as) auto
  have wf': "is_list ?h' l as"
    using ch' tl ln mx emp by (auto simp: is_list_def)
  have vals: "\<And>b. b \<in> set as \<Longrightarrow> node_val ?h' b = node_val h b"
    using notin by (auto simp: node_val_def)
  have same: "\<And>p. elem_of ?ty ?h' p = elem_of ?ty h p"
    by (rule elem_of_same) simp_all
  have "map (\<lambda>b. elem_of ?ty ?h' (node_val ?h' b)) as = map (\<lambda>b. elem_of ?ty h (node_val h b)) as"
    using vals same by (intro map_cong) simp_all
  with el have els: "map (\<lambda>b. elem_of ?ty ?h' (node_val ?h' b)) as = map Some es" by simp
  have hl': "holds ?h' l as es"
    using wf' lb bound sz els by (simp add: holds_def)
  have "elem_of ?ty h (n_val n) = Some e" using el n by (simp add: node_val_def)
  with same have ev: "elem_of ?ty ?h' (n_val n) = Some e" by simp
  from pop ev hl' show ?thesis
    by (intro exI[of _ "n_val n"] exI[of _ ?h'] exI[of _ ?L']) simp
qed

lemma stored_frame:
  assumes "stored d2f ty h arg = Some e"
    and "\<And>q. q < brk h \<Longrightarrow> cell_at h' q = cell_at h q" and "brk h \<le> brk h'"
  shows "stored d2f ty h' arg = Some e"
  using assms
  by (cases "(d2f, ty, h, arg)" rule: stored.cases)
     (auto split: option.splits cell.splits if_splits)

lemma push_all_ok:
  assumes "holds h l as es" and "list_at h l = Some L"
    and "map (stored d2f (l_type L) h) args = map Some es'"
    and "allocs (l_type L) * length args \<le> avail h"
    and "int (length as) + int (length args) \<le> INT_MAX"
  shows "\<exists>h' L' as'. push_all d2f (Some l) args h = Inr h' \<and> holds h' l (as @ as') (es @ es') \<and>
      list_at h' l = Some L' \<and> l_type L' = l_type L \<and> length as' = length args \<and>
      stderr h' = stderr h"
  using assms
proof (induction args arbitrary: h L as es es')
  case Nil
  then show ?case by (intro exI[of _ h] exI[of _ L] exI[of _ "[]"]) simp
next
  case (Cons arg args)
  let ?ty = "l_type L"
  from Cons.prems(3) obtain e es'' where es': "es' = e # es''"
    and st: "stored d2f ?ty h arg = Some e"
    and sts: "map (stored d2f ?ty h) args = map Some es''" by (cases es') auto
  have av: "allocs ?ty \<le> avail h" using Cons.prems(4) by simp
  have len: "int (length as) < INT_MAX" using Cons.prems(5) by simp
  from push_ok[OF Cons.prems(1,2) st av len] obtain h1 L1 where
    push: "push d2f (Some l) arg h = Inr h1" and hl1: "holds h1 l (as @ [brk h]) (es @ [e])"
    and l1: "list_at h1 = (list_at h)(l \<mapsto> L1)" and ty1: "l_type L1 = ?ty"
    and b1: "brk h1 = brk h + allocs ?ty" and a1: "avail h1 = avail h - allocs ?ty"
    and e1: "stderr h1 = stderr h"
    and c1: "\<forall>q. q < brk h \<longrightarrow> cell_at h1 q = cell_at h q"
    by blast
  have L1: "list_at h1 l = Some L1" using l1 by simp
  have sts1: "map (stored d2f (l_type L1) h1) args = map Some es''"
  proof -
    have "\<And>x. x \<in> set args \<Longrightarrow> stored d2f ?ty h1 x = stored d2f ?ty h x"
    proof -
      fix x assume "x \<in> set args"
      then obtain k where k: "k < length args" "x = args ! k" by (auto simp: in_set_conv_nth)
      from sts have "length es'' = length args" by (metis length_map)
      with sts k have s: "stored d2f ?ty h x = Some (es'' ! k)" by (metis nth_map)
      then have "stored d2f ?ty h1 x = Some (es'' ! k)"
        by (rule stored_frame) (use c1 b1 in auto)
      with s show "stored d2f ?ty h1 x = stored d2f ?ty h x" by simp
    qed
    then have "map (stored d2f ?ty h1) args = map (stored d2f ?ty h) args"
      by (intro map_cong) simp_all
    with sts ty1 show ?thesis by simp
  qed
  have av1: "allocs (l_type L1) * length args \<le> avail h1"
    using Cons.prems(4) a1 ty1 by simp
  have len1: "int (length (as @ [brk h])) + int (length args) \<le> INT_MAX"
    using Cons.prems(5) by simp
  from Cons.IH[OF hl1 L1 sts1 av1 len1] obtain h' L' as' where
    "push_all d2f (Some l) args h1 = Inr h'" "holds h' l ((as @ [brk h]) @ as') ((es @ [e]) @ es'')"
    "list_at h' l = Some L'" "l_type L' = l_type L1" "length as' = length args"
    "stderr h' = stderr h1"
    by blast
  with push es' ty1 e1 show ?case
    by (intro exI[of _ h'] exI[of _ L'] exI[of _ "brk h # as'"]) simp
qed

lemma pop_n_ok:
  assumes "holds h l as es" and "list_at h l = Some L"
  shows "\<exists>ps h' L'. pop_n (Some l) (length as) h = Inr (ps, h') \<and>
      map (elem_of (l_type L) h') ps = map Some es \<and> holds h' l [] [] \<and>
      list_at h' l = Some L' \<and> l_type L' = l_type L \<and> stderr h' = stderr h \<and>
      cell_at h' = cell_at h \<and> brk h' = brk h"
  using assms
proof (induction as arbitrary: h L es)
  case Nil
  then have "es = []" using holds_length by fastforce
  with Nil show ?case by (intro exI[of _ "[]"] exI[of _ h] exI[of _ L]) simp
next
  case (Cons a as)
  from holds_length[OF Cons.prems(1)] obtain e es' where es: "es = e # es'" by (cases es) auto
  from pop_ok[OF Cons.prems(1)[unfolded es] Cons.prems(2)] obtain p h1 L1 where
    pop: "pop (Some l) h = Inr (p, h1)" and ev: "elem_of (l_type L) h1 p = Some e"
    and hl1: "holds h1 l as es'" and l1: "list_at h1 = (list_at h)(l \<mapsto> L1)"
    and ty1: "l_type L1 = l_type L" and e1: "stderr h1 = stderr h"
    and c1: "cell_at h1 = cell_at h" and b1: "brk h1 = brk h"
    by blast
  have L1: "list_at h1 l = Some L1" using l1 by simp
  from Cons.IH[OF hl1 L1] obtain ps h' L' where
    pn: "pop_n (Some l) (length as) h1 = Inr (ps, h')"
    and evs: "map (elem_of (l_type L1) h') ps = map Some es'"
    and hl': "holds h' l [] []" and L': "list_at h' l = Some L'" "l_type L' = l_type L1"
    and e': "stderr h' = stderr h1"
    and c': "cell_at h' = cell_at h1" and b': "brk h' = brk h1"
    by blast
  have "elem_of (l_type L) h' p = Some e"
    using ev elem_of_same[OF c' b'] by simp
  with pop pn evs hl' L' e' e1 c' c1 b' b1 ty1 es show ?case
    by (intro exI[of _ "p # ps"] exI[of _ h'] exI[of _ L']) simp
qed

text \<open>
  C5: on an empty well-formed list, pushing \<open>n\<close> arguments of the list's kind (each
  becoming the element \<open>stored\<close> gives for it: the number itself, for a FLOAT list the
  argument narrowed to \<^verbatim>\<open>float\<close>, the characters of the string, the pointer) and then
  calling \<^verbatim>\<open>pop\<close> \<open>n\<close> times returns these elements in the order of the pushes, as long
  as \<^verbatim>\<open>malloc\<close> has room for the nodes and \<open>n\<close> is an \<^verbatim>\<open>int\<close>. Afterwards \<^verbatim>\<open>len\<close>
  returns 0 and another \<^verbatim>\<open>pop\<close> returns \<^verbatim>\<open>NULL\<close>, writing no diagnostic and changing
  nothing.
\<close>

theorem push_then_pop_fifo:
  assumes "holds h l [] []" and "list_at h l = Some L"
    and "map (stored d2f (l_type L) h) args = map Some es"
    and "allocs (l_type L) * length args \<le> avail h"
    and "int (length args) \<le> INT_MAX"
  shows "\<exists>h1 ps h2.
      push_all d2f (Some l) args h = Inr h1 \<and>
      pop_n (Some l) (length args) h1 = Inr (ps, h2) \<and>
      map (elem_of (l_type L) h2) ps = map Some es \<and>
      len (Some l) h2 = Inr (0, h2) \<and>
      pop (Some l) h2 = Inr (None, h2)"
proof -
  from push_all_ok[OF assms(1,2,3,4)] assms(5) obtain h1 L1 as where
    pa: "push_all d2f (Some l) args h = Inr h1" and hl1: "holds h1 l as es"
    and L1: "list_at h1 l = Some L1" "l_type L1 = l_type L" and n: "length as = length args"
    by auto
  from pop_n_ok[OF hl1 L1(1)] obtain ps h2 L2 where
    pn: "pop_n (Some l) (length as) h1 = Inr (ps, h2)"
    and ev: "map (elem_of (l_type L1) h2) ps = map Some es"
    and hl2: "holds h2 l [] []" and L2: "list_at h2 l = Some L2"
    by blast
  from hl2 L2 have "l_length L2 = 0" "l_head L2 = None" by (auto simp: holds_def is_list_def)
  with L2 have "len (Some l) h2 = Inr (0, h2)" "pop (Some l) h2 = Inr (None, h2)"
    by (simp_all add: len_def pop_def)
  with pa pn ev n L1 show ?thesis by auto
qed


theorem push_then_pop_fifo_witness:
  "holds (new_list_heap INT_t 9) 0 [] [] \<and>
   list_at (new_list_heap INT_t 9) 0 =
     Some \<lparr>l_head = None, l_tail = None, l_type = INT_t, l_size = 4, l_length = 0\<rparr> \<and>
   map (stored ucast INT_t (new_list_heap INT_t 9)) [IntArg 10, IntArg 20] =
     map Some [Held (IntC 10), Held (IntC 20)] \<and>
   allocs INT_t * length [IntArg 10, IntArg 20] \<le> avail (new_list_heap INT_t 9) \<and>
   int (length [IntArg 10, IntArg 20]) \<le> INT_MAX \<and>
   (\<exists>h1 ps h2.
      push_all ucast (Some 0) [IntArg 10, IntArg 20] (new_list_heap INT_t 9) = Inr h1 \<and>
      pop_n (Some 0) 2 h1 = Inr (ps, h2) \<and>
      map (elem_of INT_t h2) ps = [Some (Held (IntC 10)), Some (Held (IntC 20))] \<and>
      len (Some 0) h2 = Inr (0, h2) \<and>
      pop (Some 0) h2 = Inr (None, h2))"
proof -
  let ?h = "new_list_heap INT_t 9"
  let ?L = "\<lparr>l_head = None, l_tail = None, l_type = INT_t, l_size = 4, l_length = 0\<rparr>"
  have a: "list_at ?h 0 = Some ?L" by (simp add: new_list_heap_def)
  have b: "map (stored ucast (l_type ?L) ?h) [IntArg 10, IntArg 20] =
      map Some [Held (IntC 10), Held (IntC 20)]" by simp
  have c: "allocs (l_type ?L) * length [IntArg 10, IntArg 20] \<le> avail ?h"
    by (simp add: allocs_def new_list_heap_def)
  have d: "int (length [IntArg 10, IntArg 20]) \<le> INT_MAX" by (simp add: INT_MAX_def)
  show ?thesis
    using push_then_pop_fifo[OF holds_new_list a b c d] holds_new_list[of INT_t 9] a b c d
    by (simp add: numeral_2_eq_2)
qed

section \<open>Teardown\<close>

text \<open>
  On a well-formed list whose nodes own distinct storage, \<^verbatim>\<open>destroyList\<close> returns and
  leaves the list empty and well formed; a second call changes nothing.
\<close>

lemma destroy_loop_ok:
  assumes "chain (node_at h) cur as" and "list_at h l = Some L"
    and "l_type L \<noteq> T \<longrightarrow> distinct (map (node_val h) as) \<and>
           list_all (\<lambda>a. \<exists>v c. node_val h a = Some v \<and> cell_at h v = Some c) as"
  shows "\<exists>h'. destroy_loop l cur h = Some (Inr h') \<and> list_at h' = list_at h \<and>
           (\<forall>b. node_at h' b = (if b \<in> set as then None else node_at h b)) \<and>
           brk h' = brk h \<and> stderr h' = stderr h"
  using assms
proof (induction as arbitrary: cur h)
  case Nil
  then show ?case by (simp add: destroy_loop.simps[of l None])
next
  case (Cons a as)
  from Cons.prems(1) obtain n where cur: "cur = Some a" and n: "node_at h a = Some n"
    and rest: "chain (node_at h) (n_nextNode n) as" by auto
  from Cons.prems(1) cur have "chain (node_at h) (Some a) (a # as)" by simp
  then have notin: "a \<notin> set as" by (rule chain_head_notin)
  obtain h1 where fv: "(if l_type L \<noteq> T then free_val (n_val n) h else Inr h) = Inr h1"
    and nodes1: "node_at h1 = node_at h" and lists1: "list_at h1 = list_at h"
    and b1: "brk h1 = brk h" and s1: "stderr h1 = stderr h"
    and cells1: "l_type L \<noteq> T \<longrightarrow> (\<forall>v. Some v \<noteq> n_val n \<longrightarrow> cell_at h1 v = cell_at h v)"
    using Cons.prems(3) n by (cases "l_type L = T") (auto simp: free_val_def node_val_def)
  let ?h2 = "h1\<lparr>node_at := (node_at h1)(a := None)\<rparr>"
  have step: "destroy_loop l cur h = destroy_loop l (n_nextNode n) ?h2"
    using cur n Cons.prems(2) fv by (simp add: destroy_loop.simps[of l "Some a" h])
  have vals: "\<And>b. b \<in> set as \<Longrightarrow> node_val ?h2 b = node_val h b"
    using notin nodes1 by (auto simp: node_val_def)
  have "chain (node_at ?h2) (n_nextNode n) as = chain (node_at h) (n_nextNode n) as"
    using notin nodes1 by (intro chain_same) auto
  with rest have ch2: "chain (node_at ?h2) (n_nextNode n) as" by simp
  have L2: "list_at ?h2 l = Some L" using lists1 Cons.prems(2) by simp
  have own2: "l_type L \<noteq> T \<longrightarrow> distinct (map (node_val ?h2) as) \<and>
           list_all (\<lambda>a. \<exists>v c. node_val ?h2 a = Some v \<and> cell_at ?h2 v = Some c) as"
  proof
    assume t: "l_type L \<noteq> T"
    with Cons.prems(3) have d: "distinct (map (node_val h) (a # as))"
      and al: "list_all (\<lambda>a. \<exists>v c. node_val h a = Some v \<and> cell_at h v = Some c) as" by auto
    have eq: "map (node_val ?h2) as = map (node_val h) as" using vals by (intro map_cong) simp_all
    from d have "distinct (map (node_val h) as)" by simp
    then have "distinct (map (node_val ?h2) as)" by (simp only: eq)
    moreover have "list_all (\<lambda>a. \<exists>v c. node_val ?h2 a = Some v \<and> cell_at ?h2 v = Some c) as"
      unfolding list_all_iff
    proof
      fix b assume b: "b \<in> set as"
      with al obtain v c where v: "node_val h b = Some v" "cell_at h v = Some c"
        by (auto simp: list_all_iff)
      from d b have "node_val h a \<noteq> node_val h b" by auto
      with v n have "Some v \<noteq> n_val n" by (auto simp: node_val_def)
      with cells1 t have "cell_at ?h2 v = cell_at h v" by simp
      with v vals[OF b] show "\<exists>v c. node_val ?h2 b = Some v \<and> cell_at ?h2 v = Some c" by simp
    qed
    ultimately show "distinct (map (node_val ?h2) as) \<and>
           list_all (\<lambda>a. \<exists>v c. node_val ?h2 a = Some v \<and> cell_at ?h2 v = Some c) as" by simp
  qed
  from Cons.IH[OF ch2 L2 own2] obtain h' where
    r: "destroy_loop l (n_nextNode n) ?h2 = Some (Inr h')" and l': "list_at h' = list_at ?h2"
    and gone: "\<forall>b. node_at h' b = (if b \<in> set as then None else node_at ?h2 b)"
    and b': "brk h' = brk ?h2"
    and s': "stderr h' = stderr ?h2"
    by blast
  have "\<forall>b. node_at h' b = (if b \<in> set (a # as) then None else node_at h b)"
    using gone nodes1 by simp
  with step r l' lists1 b' b1 s' s1 show ?case
    by (intro exI[of _ h']) simp
qed

lemma destroyList_ok:
  assumes "holds h l as es" and "list_at h l = Some L"
    and "l_type L \<noteq> T \<longrightarrow> distinct (map (node_val h) as)"
  shows "\<exists>h'. destroyList (Some l) h = Some (Inr h') \<and> holds h' l [] [] \<and>
           destroyList (Some l) h' = Some (Inr h')"
proof -
  from assms(1,2) have ch: "chain (node_at h) (l_head L) as" and lb: "l < brk h"
    and sz: "l_size L = sizeof (l_type L)"
    by (auto simp: holds_def is_list_def)
  have "l_type L \<noteq> T \<longrightarrow>
      list_all (\<lambda>a. \<exists>v c. node_val h a = Some v \<and> cell_at h v = Some c) as"
  proof
    assume t: "l_type L \<noteq> T"
    show "list_all (\<lambda>a. \<exists>v c. node_val h a = Some v \<and> cell_at h v = Some c) as"
      unfolding list_all_iff
    proof
      fix a assume "a \<in> set as"
      then obtain k where "k < length as" "a = as ! k" by (auto simp: in_set_conv_nth)
      with holds_nth[OF assms(1,2)] have "elem_of (l_type L) h (node_val h a) = Some (es ! k)"
        by simp
      from elem_of_owned[OF this t]
      show "\<exists>v c. node_val h a = Some v \<and> cell_at h v = Some c" by blast
    qed
  qed
  with assms(3) have own: "l_type L \<noteq> T \<longrightarrow> distinct (map (node_val h) as) \<and>
      list_all (\<lambda>a. \<exists>v c. node_val h a = Some v \<and> cell_at h v = Some c) as" by simp
  from destroy_loop_ok[OF ch assms(2) own] obtain h1 where
    r: "destroy_loop l (l_head L) h = Some (Inr h1)" and l1: "list_at h1 = list_at h"
    and b1: "brk h1 = brk h" by blast
  let ?L' = "L\<lparr>l_head := None, l_tail := None, l_length := 0\<rparr>"
  let ?h' = "h1\<lparr>list_at := (list_at h1)(l \<mapsto> ?L')\<rparr>"
  have d: "destroyList (Some l) h = Some (Inr ?h')"
    using assms(2) r l1 by (simp add: destroyList_def)
  have hl: "holds ?h' l [] []"
    using lb b1 sz by (simp add: holds_def is_list_def INT_MAX_def)
  have "(list_at h1)(l \<mapsto> ?L', l \<mapsto> ?L'\<lparr>l_head := None, l_tail := None, l_length := 0\<rparr>) =
      (list_at h1)(l \<mapsto> ?L')" by simp
  then have again: "destroyList (Some l) ?h' = Some (Inr ?h')"
    by (simp add: destroyList_def destroy_loop.simps[of l None])
  from d hl again show ?thesis by blast
qed

section \<open>\<^verbatim>\<open>pick\<close>, \<^verbatim>\<open>get\<close> and \<^verbatim>\<open>remove\<close>\<close>

lemma splice_found:
  assumes n: "node_at h a = Some n" and nx: "n_nextNode n = Some t" and tn: "node_at h t = Some tn"
    and ne: "a \<noteq> t" and L: "list_at h l = Some L" and len: "INT_MIN < l_length L"
    and x: "x = i - 1" and i: "i \<noteq> 0" "i \<le> INT_MAX"
  shows "\<exists>h1. pick_loop l i (Some a) x h = Inr (n_val tn, h1) \<and>
           cell_at h1 = cell_at h \<and> brk h1 = brk h \<and>
           get_loop i (Some a) x h = Inr (n_val tn, h) \<and>
           delete_loop l i (Some a) x h = (if l_type L \<noteq> T then free_val (n_val tn) h1 else Inr h1)"
proof -
  have g: "get_loop i (Some a) x h = Inr (n_val tn, h)"
    using n nx tn x i by (simp add: get_loop.simps[of i "Some a"] get_loop.simps[of i "Some t"])
  show ?thesis
    using n nx tn ne L len x i g
    by (cases "n_val tn")
       (auto simp: pick_loop.simps[of l i "Some a"] delete_loop.simps[of l i "Some a"]
        unlink_next_def release_node_def length_decr_def free_val_def
        split: option.splits)
qed

lemma splice_loops:
  assumes "chain (node_at h) cur as" and "list_at h l = Some L" and "INT_MIN < l_length L"
    and "x < i" and "nat (i - x) < length as" and "i \<le> INT_MAX" and "0 \<le> x"
  shows "\<exists>v h1. pick_loop l i cur x h = Inr (v, h1) \<and>
           cell_at h1 = cell_at h \<and> brk h1 = brk h \<and>
           get_loop i cur x h = Inr (v, h) \<and>
           delete_loop l i cur x h = (if l_type L \<noteq> T then free_val v h1 else Inr h1)"
  using assms
proof (induction as arbitrary: cur x)
  case Nil
  then show ?case by simp
next
  case (Cons a as)
  from Cons.prems(1) obtain n where cur: "cur = Some a" and n: "node_at h a = Some n"
    and rest: "chain (node_at h) (n_nextNode n) as" by auto
  show ?case
  proof (cases "x = i - 1")
    case True
    with Cons.prems have "as \<noteq> []" by auto
    then obtain t as' where as: "as = t # as'" by (cases as) auto
    with rest obtain tn where nx: "n_nextNode n = Some t" and tn: "node_at h t = Some tn" by auto
    from Cons.prems(1) cur have "chain (node_at h) (Some a) (a # as)" by simp
    then have "a \<notin> set as" by (rule chain_head_notin)
    with as have ne: "a \<noteq> t" by auto
    from True Cons.prems have "i \<noteq> 0" by auto
    from splice_found[OF n nx tn ne Cons.prems(2,3) True this Cons.prems(6)] cur
    show ?thesis by blast
  next
    case False
    with Cons.prems have lt: "x + 1 < i" by simp
    then have "nat (i - (x + 1)) < length as" using Cons.prems(5) by auto
    moreover have "0 \<le> x + 1" using Cons.prems(7) by simp
    ultimately have "\<exists>v h1. pick_loop l i (n_nextNode n) (x + 1) h = Inr (v, h1) \<and>
           cell_at h1 = cell_at h \<and> brk h1 = brk h \<and>
           get_loop i (n_nextNode n) (x + 1) h = Inr (v, h) \<and>
           delete_loop l i (n_nextNode n) (x + 1) h =
             (if l_type L \<noteq> T then free_val v h1 else Inr h1)"
      using rest Cons.prems(2,3,6) lt by (intro Cons.IH)
    then
    obtain v h1 where "pick_loop l i (n_nextNode n) (x + 1) h = Inr (v, h1)"
      and "cell_at h1 = cell_at h" "brk h1 = brk h"
      and "get_loop i (n_nextNode n) (x + 1) h = Inr (v, h)"
      and "delete_loop l i (n_nextNode n) (x + 1) h =
             (if l_type L \<noteq> T then free_val v h1 else Inr h1)" by blast
    moreover have "\<not> INT_MAX \<le> x" "x \<noteq> i" "i - 1 \<noteq> x" using lt Cons.prems by auto
    ultimately show ?thesis
      using cur n False
      by (simp add: pick_loop.simps[of l i "Some a"] get_loop.simps[of i "Some a"]
          delete_loop.simps[of l i "Some a"])
  qed
qed

lemma get_loop_nth:
  assumes "chain (node_at h) cur as" and "x \<le> i" and "nat (i - x) < length as"
    and "i \<le> INT_MAX"
  shows "get_loop i cur x h = Inr (node_val h (as ! nat (i - x)), h)"
  using assms
proof (induction as arbitrary: cur x)
  case Nil
  then show ?case by simp
next
  case (Cons a as)
  from Cons.prems(1) obtain n where cur: "cur = Some a" and n: "node_at h a = Some n"
    and rest: "chain (node_at h) (n_nextNode n) as" by auto
  show ?case
  proof (cases "x = i")
    case True
    then show ?thesis using cur n by (simp add: get_loop.simps[of i "Some a"] node_val_def)
  next
    case False
    with Cons.prems have lt: "x + 1 \<le> i" by simp
    moreover have "nat (i - (x + 1)) < length as" using Cons.prems False by auto
    ultimately have "get_loop i (n_nextNode n) (x + 1) h =
        Inr (node_val h (as ! nat (i - (x + 1))), h)"
      using rest Cons.prems(4) by (intro Cons.IH)
    moreover have "nat (i - x) = Suc (nat (i - (x + 1)))" using lt by simp
    moreover have "\<not> INT_MAX \<le> x" using lt Cons.prems(4) by simp
    ultimately show ?thesis
      using cur n False by (simp add: get_loop.simps[of i "Some a"])
  qed
qed

lemma head_ops:
  assumes L: "list_at h l = Some L" and hd: "l_head L = Some a" and n: "node_at h a = Some n"
    and len: "INT_MIN < l_length L"
  shows "\<exists>h1. pop (Some l) h = Inr (n_val n, h1) \<and> cell_at h1 = cell_at h \<and> brk h1 = brk h \<and>
           get (Some l) 0 h = Inr (n_val n, h) \<and>
           delete (Some l) 0 h = (if l_type L \<noteq> T then free_val (n_val n) h1 else Inr h1)"
  using assms
  by (cases L; cases "n_val n"; cases "n_nextNode n")
     (auto simp: pop_def get_def delete_def get_loop.simps[of 0 "Some a"] release_node_def
      length_decr_def free_val_def split: option.splits)

text \<open>
  C4: take any list structure, the nodes \<open>as\<close> on the chain from its \<^verbatim>\<open>_head\<close> and an
  index \<open>i\<close> of one of them whose element \<open>e\<close> can be read (the tail pointer plays no
  part; of the stored length only that \<^verbatim>\<open>_length--\<close> does not overflow). Then \<^verbatim>\<open>pick(i)\<close>
  returns the pointer \<^verbatim>\<open>get(i)\<close> returns (\<^verbatim>\<open>get\<close> changing nothing), and the element behind
  it is still there to read: it is \<open>e\<close>, now the caller's. \<^verbatim>\<open>remove(i)\<close> succeeds too, and
  the store it leaves is the store \<^verbatim>\<open>pick(i)\<close> leaves, except that for the owning kinds
  the value's storage has been freed where \<^verbatim>\<open>pick\<close> hands it over; for \<open>T\<close> the two stores
  are the same. On every list, empty or not, \<^verbatim>\<open>pick(0)\<close> is \<^verbatim>\<open>pop\<close>.
\<close>

theorem pick_is_get_then_remove:
  assumes L: "list_at h l = Some L" and ch: "chain (node_at h) (l_head L) as"
    and i0: "0 \<le> i" and ilen: "i < int (length as)" and imax: "i \<le> INT_MAX"
    and min: "INT_MIN < l_length L"
    and el: "elem_of (l_type L) h (node_val h (as ! nat i)) = Some e"
  shows "\<exists>p h1 h2.
      pick (Some l) i h = Inr (p, h1) \<and>
      get (Some l) i h = Inr (p, h) \<and>
      delete (Some l) i h = Inr h2 \<and>
      elem_of (l_type L) h1 p = Some e \<and>
      (l_type L = T \<longrightarrow> h2 = h1) \<and>
      (l_type L \<noteq> T \<longrightarrow> (\<exists>v. p = Some v \<and> h2 = h1\<lparr>cell_at := (cell_at h1)(v := None)\<rparr>)) \<and>
      (\<forall>l' h'. pick (Some l') 0 h' = pop (Some l') h')"
proof -
  from i0 ilen have k: "nat i < length as" by simp
  have g: "get (Some l) i h = Inr (node_val h (as ! nat i), h)"
    using get_loop_nth[OF ch, of 0 i] L i0 k imax by (simp add: get_def)
  have "\<exists>h1. pick (Some l) i h = Inr (node_val h (as ! nat i), h1) \<and>
          cell_at h1 = cell_at h \<and> brk h1 = brk h \<and>
          delete (Some l) i h =
            (if l_type L \<noteq> T then free_val (node_val h (as ! nat i)) h1 else Inr h1)"
  proof (cases "i = 0")
    case True
    from k obtain a as' where as: "as = a # as'" by (cases as) auto
    with ch obtain n where "l_head L = Some a" "node_at h a = Some n" by auto
    from head_ops[OF L this min] g True as \<open>node_at h a = Some n\<close>
    show ?thesis by (auto simp: pick_def node_val_def)
  next
    case False
    with i0 have pos: "0 < i" by simp
    have "nat (i - 0) < length as" using k by simp
    from splice_loops[OF ch L min pos this imax]
    obtain v h1 where "pick_loop l i (l_head L) 0 h = Inr (v, h1)"
      "cell_at h1 = cell_at h" "brk h1 = brk h" "get_loop i (l_head L) 0 h = Inr (v, h)"
      "delete_loop l i (l_head L) 0 h = (if l_type L \<noteq> T then free_val v h1 else Inr h1)"
      by auto
    with g False L i0 show ?thesis
      by (auto simp: pick_def get_def delete_def)
  qed
  then obtain h1 where pk: "pick (Some l) i h = Inr (node_val h (as ! nat i), h1)"
    and cells: "cell_at h1 = cell_at h" and brk: "brk h1 = brk h"
    and del: "delete (Some l) i h =
            (if l_type L \<noteq> T then free_val (node_val h (as ! nat i)) h1 else Inr h1)"
    by blast
  have el1: "elem_of (l_type L) h1 (node_val h (as ! nat i)) = Some e"
    using el by (simp only: elem_of_def cells brk)
  have zero: "\<forall>l' h'. pick (Some l') 0 h' = pop (Some l') h'" by (simp add: pick_def)
  show ?thesis
  proof (cases "l_type L = T")
    case True
    with pk g del el1 zero show ?thesis by auto
  next
    case False
    from elem_of_owned[OF el1 False] obtain v c where
      v: "node_val h (as ! nat i) = Some v" "cell_at h1 v = Some c" by blast
    then have "free_val (node_val h (as ! nat i)) h1 = Inr (h1\<lparr>cell_at := (cell_at h1)(v := None)\<rparr>)"
      by (simp add: free_val_def)
    with pk g del el1 zero False v show ?thesis by auto
  qed
qed

theorem pick_is_get_then_remove_witness:
  "list_at stale_tail 0 =
     Some \<lparr>l_head = Some 1, l_tail = Some 1, l_type = INT_t, l_size = 4, l_length = 2\<rparr> \<and>
   chain (node_at stale_tail) (Some 1) [1, 3] \<and>
   (0::int) \<le> 1 \<and> (1::int) < int (length [1::addr, 3]) \<and> (1::int) \<le> INT_MAX \<and>
   INT_MIN < (2::int) \<and>
   elem_of INT_t stale_tail (node_val stale_tail ([1, 3] ! nat 1)) = Some (Held (IntC 2)) \<and>
   (\<exists>p h1 h2.
      pick (Some 0) 1 stale_tail = Inr (p, h1) \<and>
      get (Some 0) 1 stale_tail = Inr (p, stale_tail) \<and>
      delete (Some 0) 1 stale_tail = Inr h2 \<and>
      elem_of INT_t h1 p = Some (Held (IntC 2)) \<and>
      (\<exists>v. p = Some v \<and> h2 = h1\<lparr>cell_at := (cell_at h1)(v := None)\<rparr>)) \<and>
   pick (Some 0) 0 (new_list_heap INT_t 0) = pop (Some 0) (new_list_heap INT_t 0)"
proof -
  let ?L = "\<lparr>l_head = Some 1, l_tail = Some 1, l_type = INT_t, l_size = 4, l_length = 2\<rparr>"
  have a: "list_at stale_tail 0 = Some ?L" by (simp add: stale_tail_def)
  have b: "chain (node_at stale_tail) (l_head ?L) [1, 3]" by (simp add: stale_tail_def)
  have c: "(0::int) \<le> 1" by simp
  have d: "(1::int) < int (length [1::addr, 3])" by simp
  have e: "(1::int) \<le> INT_MAX" by (simp add: INT_MAX_def)
  have f: "INT_MIN < l_length ?L" by (simp add: INT_MIN_def)
  have g: "elem_of (l_type ?L) stale_tail (node_val stale_tail ([1, 3] ! nat 1)) =
      Some (Held (IntC 2))"
    by (simp add: stale_tail_def elem_of_def node_val_def)
  show ?thesis
    using pick_is_get_then_remove[OF a b c d e f g] a b e f g
    by simp blast
qed

text \<open>
  An index below the stored length need not be the index of a node once \<^verbatim>\<open>insert\<close> has
  left the tail pointer behind: after \<^verbatim>\<open>push(1)\<close>, \<^verbatim>\<open>insert(1, 2)\<close>, \<^verbatim>\<open>push(3)\<close> and two
  calls of \<^verbatim>\<open>pop\<close> the list has no node and the length 1. There \<^verbatim>\<open>pick(0)\<close> returns
  \<^verbatim>\<open>NULL\<close> and changes nothing, and \<^verbatim>\<open>remove(0)\<close> reads through the \<^verbatim>\<open>NULL\<close> head.
\<close>

lemma stale_length_example:
  "and_then (newList INT_t (empty_heap 12)) (\<lambda>(l, h0).
     and_then (push d2f (Some l) (IntArg 1) h0) (\<lambda>h1.
     and_then (insert_l d2f (Some l) 1 (IntArg 2) h1) (\<lambda>h2.
     and_then (push d2f (Some l) (IntArg 3) h2) (\<lambda>h3.
     and_then (pop (Some l) h3) (\<lambda>(p, h4).
     and_then (pop (Some l) h4) (\<lambda>(q, h5).
       Inr (len (Some l) h5 = Inr (1, h5), pick (Some l) 0 h5 = Inr (None, h5),
            delete (Some l) 0 h5))))))) = Inr (True, True, Inl NullDeref)"
  by (simp add: and_then_def newList_def malloc_def empty_heap_def push_def underPush_def
      insert_l_def len_def newNode_def underInsert_def underInsert_loop.simps
      length_incr_def length_decr_def INT_MAX_def INT_MIN_def pop_def pick_def delete_def)

section \<open>\<^verbatim>\<open>duplicate\<close> and \<^verbatim>\<open>set\<close>\<close>

lemma dup_arg_ok:
  assumes "elem_of ty h p = Some e" and "of_kind ty e"
  shows "\<exists>arg. dup_arg f2d ty p h = Inr arg \<and>
           stored d2f ty h arg = Some (via_double d2f f2d e)"
  using assms
  by (cases "(ty, e)" rule: of_kind.cases)
     (auto simp: dup_arg_def elem_of_def split: option.splits if_splits)

lemma via_double_same:
  assumes "\<forall>f. Held (FloatC f) \<in> set es \<longrightarrow> d2f (f2d f) = f"
  shows "map (via_double d2f f2d) es = es"
proof -
  have "\<And>e. e \<in> set es \<Longrightarrow> via_double d2f f2d e = e"
  proof -
    fix e assume "e \<in> set es"
    with assms show "via_double d2f f2d e = e"
      by (cases "(d2f, f2d, e)" rule: via_double.cases) auto
  qed
  then show ?thesis by (simp add: map_idI)
qed

lemma of_kind_no_float:
  assumes "list_all (of_kind ty) es" and "ty \<noteq> FLOAT"
  shows "\<forall>f. Held (FloatC f) \<in> set es \<longrightarrow> d2f (f2d f) = f"
proof (intro allI impI)
  fix f assume "Held (FloatC f) \<in> set es"
  with assms(1) have "of_kind ty (Held (FloatC f))" by (auto simp: list_all_iff)
  with assms(2) show "d2f (f2d f) = f" by (cases ty) auto
qed

lemma holds_has_elems: "holds h l as es \<Longrightarrow> has_elems h l as es"
  by (auto simp: holds_def has_elems_def is_list_def split: option.splits)

lemma has_elems_frame:
  assumes "has_elems h l as es"
    and same: "\<And>a. a < brk h \<Longrightarrow>
          list_at h' a = list_at h a \<and> node_at h' a = node_at h a \<and> cell_at h' a = cell_at h a"
    and le: "brk h \<le> brk h'"
  shows "has_elems h' l as es"
proof -
  from assms(1) obtain L where L: "list_at h l = Some L" and l: "l < brk h"
    and ch: "chain (node_at h) (l_head L) as" and bound: "list_all (\<lambda>a. a < brk h) as"
    and el: "map (\<lambda>a. elem_of (l_type L) h (node_val h a)) as = map Some es"
    by (auto simp: has_elems_def split: option.splits)
  have L': "list_at h' l = Some L" using same[OF l] L by simp
  have nodes: "\<And>a. a \<in> set as \<Longrightarrow> node_at h' a = node_at h a"
    using bound same by (auto simp: list_all_iff)
  then have "chain (node_at h') (l_head L) as = chain (node_at h) (l_head L) as"
    by (intro chain_same) simp
  with ch have ch': "chain (node_at h') (l_head L) as" by simp
  have "\<And>a. a \<in> set as \<Longrightarrow>
      elem_of (l_type L) h' (node_val h' a) = elem_of (l_type L) h (node_val h a)"
  proof -
    fix a assume a: "a \<in> set as"
    then obtain k where k: "k < length as" "a = as ! k" by (auto simp: in_set_conv_nth)
    from el have "length es = length as" by (metis length_map)
    with el k have s: "elem_of (l_type L) h (node_val h a) = Some (es ! k)" by (metis nth_map)
    then have "elem_of (l_type L) h' (node_val h a) = Some (es ! k)"
      by (rule elem_of_frame) (use same le in auto)
    moreover have "node_val h' a = node_val h a" using nodes[OF a] by (simp add: node_val_def)
    ultimately show "elem_of (l_type L) h' (node_val h' a) = elem_of (l_type L) h (node_val h a)"
      using s by simp
  qed
  then have "map (\<lambda>a. elem_of (l_type L) h' (node_val h' a)) as =
      map (\<lambda>a. elem_of (l_type L) h (node_val h a)) as" by (intro map_cong) simp_all
  with el have el': "map (\<lambda>a. elem_of (l_type L) h' (node_val h' a)) as = map Some es" by simp
  have "list_all (\<lambda>a. a < brk h') as" using bound le by (auto simp: list_all_iff)
  with L' ch' el' l le show ?thesis by (simp add: has_elems_def)
qed

lemma set_value_frame:
  assumes "set_value d2f ty c arg h = Inr h'" and "node_at h c = Some cn" and "b \<le> c"
    and "ty \<noteq> T \<longrightarrow> (\<exists>v. n_val cn = Some v \<and> b \<le> v)" and "b \<le> brk h"
  shows "(\<forall>a. a < b \<longrightarrow> node_at h' a = node_at h a \<and> cell_at h' a = cell_at h a) \<and>
         list_at h' = list_at h \<and> brk h \<le> brk h'"
  using assms
  by (cases ty; cases arg)
     (auto simp: set_value_def memcpy_val_def free_val_def malloc_def
      split: option.splits if_splits cell.splits)

lemma set_loop_frame:
  assumes "chain (node_at h) cur cs"
    and "list_all (\<lambda>c. b \<le> c \<and> (ty \<noteq> T \<longrightarrow> (\<exists>v. node_val h c = Some v \<and> b \<le> v))) cs"
    and "list_at h l = Some L" and "l_type L = ty" and "b \<le> brk h"
    and "set_loop d2f l i arg cur x h = Inr h'"
  shows "(\<forall>a. a < b \<longrightarrow> node_at h' a = node_at h a \<and> cell_at h' a = cell_at h a) \<and>
         list_at h' = list_at h \<and> brk h \<le> brk h'"
  using assms
proof (induction cs arbitrary: cur x)
  case Nil
  then show ?case by (auto simp: set_loop.simps[of d2f l i arg None] report_def)
next
  case (Cons c cs)
  from Cons.prems(1) obtain cn where cur: "cur = Some c" and cn: "node_at h c = Some cn"
    and rest: "chain (node_at h) (n_nextNode cn) cs" by auto
  show ?case
  proof (cases "x = i")
    case True
    with Cons.prems cur have sv: "set_value d2f ty c arg h = Inr h'"
      by (simp add: set_loop.simps[of d2f l i arg "Some c"])
    from Cons.prems(2) cn have "b \<le> c" "ty \<noteq> T \<longrightarrow> (\<exists>v. n_val cn = Some v \<and> b \<le> v)"
      by (auto simp: node_val_def)
    from set_value_frame[OF sv cn this Cons.prems(5)] show ?thesis .
  next
    case False
    with Cons.prems(6) cur cn have "set_loop d2f l i arg (n_nextNode cn) (x + 1) h = Inr h'"
      by (auto simp: set_loop.simps[of d2f l i arg "Some c"] split: if_splits)
    moreover from Cons.prems(2) have "list_all (\<lambda>c. b \<le> c \<and> (ty \<noteq> T \<longrightarrow> (\<exists>v. node_val h c = Some v \<and> b \<le> v))) cs"
      by simp
    ultimately show ?thesis
      using rest Cons.prems(3,4,5) by (intro Cons.IH)
  qed
qed

lemma set_l_frame:
  assumes "is_list h l cs" and "list_at h l = Some L"
    and "list_all (\<lambda>c. b \<le> c \<and> (l_type L \<noteq> T \<longrightarrow> (\<exists>v. node_val h c = Some v \<and> b \<le> v))) cs"
    and "b \<le> brk h" and "set_l d2f (Some l) i arg h = Inr h'"
  shows "(\<forall>a. a < b \<longrightarrow> node_at h' a = node_at h a \<and> cell_at h' a = cell_at h a) \<and>
         list_at h' = list_at h \<and> brk h \<le> brk h'"
proof (cases "i < 0")
  case True
  with assms(5) show ?thesis by (auto simp: set_l_def report_def)
next
  case False
  with assms(5,2) have "set_loop d2f l i arg (l_head L) 0 h = Inr h'" by (simp add: set_l_def)
  moreover from assms(1,2) have "chain (node_at h) (l_head L) cs" by (simp add: is_list_def)
  ultimately show ?thesis using assms(2,3,4) by (intro set_loop_frame[where ty = "l_type L"]) auto
qed

lemma dup_loop_ok:
  assumes src: "list_at h l = Some L"
    and it: "iter_at h it = Some I"
    and ch: "chain (node_at h) (i_current I) rest"
    and rb: "list_all (\<lambda>a. a < b) rest"
    and re: "map (\<lambda>a. elem_of (l_type L) h (node_val h a)) rest = map Some es_r"
    and kinds: "list_all (of_kind (l_type L)) es_r"
    and dup: "holds h l' as' es_d" and L': "list_at h l' = Some L'"
    and ty': "l_type L' = l_type L" and ne: "l' \<noteq> l"
    and priv: "list_all (\<lambda>a. b \<le> a \<and> (l_type L \<noteq> T \<longrightarrow> node_val h a = Some (Suc a))) as'"
    and bb: "b \<le> brk h"
    and idx: "i_index I + int (length rest) \<le> INT_MAX"
    and av: "allocs (l_type L) * length rest \<le> avail h"
    and len: "int (length as') + int (length rest) \<le> INT_MAX"
  shows "\<exists>h' as''. duplicate_loop d2f f2d l l' it h = Inr h' \<and>
      holds h' l' (as' @ as'') (es_d @ map (via_double d2f f2d) es_r) \<and>
      list_all (\<lambda>a. b \<le> a \<and> (l_type L \<noteq> T \<longrightarrow> node_val h' a = Some (Suc a))) (as' @ as'') \<and>
      (\<forall>a. a < b \<longrightarrow> node_at h' a = node_at h a) \<and>
      (\<forall>q. q < brk h \<longrightarrow> cell_at h' q = cell_at h q) \<and>
      (\<forall>x. x \<noteq> l' \<longrightarrow> list_at h' x = list_at h x) \<and>
      brk h \<le> brk h' \<and> stderr h' = stderr h \<and>
      (\<exists>I'. iter_at h' it = Some I') \<and>
      (\<exists>L''. list_at h' l' = Some L'' \<and> l_type L'' = l_type L)"
  using assms
proof (induction rest arbitrary: h I as' es_d L' es_r)
  case Nil
  then have "i_current I = None" "es_r = []" by auto
  with Nil.prems have "duplicate_loop d2f f2d l l' it h = Inr h"
    by (simp add: duplicate_loop.simps[of d2f f2d l l' it h] hasNext_def)
  with Nil.prems \<open>es_r = []\<close> show ?case
    by (intro exI[of _ h] exI[of _ "[]"]) simp
next
  case (Cons a rest)
  let ?ty = "l_type L"
  note src = Cons.prems(1) and it = Cons.prems(2) and ch = Cons.prems(3) and rb = Cons.prems(4)
    and re = Cons.prems(5) and kinds = Cons.prems(6) and dup = Cons.prems(7)
    and L' = Cons.prems(8) and ty' = Cons.prems(9) and ne = Cons.prems(10)
    and priv = Cons.prems(11) and bb = Cons.prems(12) and idx = Cons.prems(13)
    and av = Cons.prems(14) and len = Cons.prems(15)
  from ch obtain n where cur: "i_current I = Some a" and n: "node_at h a = Some n"
    and rest: "chain (node_at h) (n_nextNode n) rest" by auto
  from re obtain e es_r' where es_r: "es_r = e # es_r'"
    and e: "elem_of ?ty h (node_val h a) = Some e"
    and re': "map (\<lambda>a. elem_of ?ty h (node_val h a)) rest = map Some es_r'"
    by (cases es_r) auto
  from kinds es_r have ke: "of_kind ?ty e" and kinds': "list_all (of_kind ?ty) es_r'" by auto
  have va: "node_val h a = n_val n" using n by (simp add: node_val_def)
  let ?I1 = "I\<lparr>i_index := i_index I + 1, i_current := n_nextNode n\<rparr>"
  let ?h1 = "h\<lparr>iter_at := (iter_at h)(it \<mapsto> ?I1)\<rparr>"
  have hn: "hasNext (Some it) h = Inr True" using it cur by (simp add: hasNext_def)
  have "\<not> INT_MAX \<le> i_index I" using idx by simp
  then have nx: "next_it (Some it) h = Inr (n_val n, ?h1)"
    using it cur n by (simp add: next_it_def)
  have src1: "list_at ?h1 l = Some L" using src by simp
  have e1: "elem_of ?ty ?h1 (n_val n) = Some e"
    using e va elem_of_same[of ?h1 h ?ty "n_val n"] by simp
  let ?e' = "via_double d2f f2d e"
  from dup_arg_ok[OF e1 ke, of f2d d2f] obtain arg where
    da: "dup_arg f2d ?ty (n_val n) ?h1 = Inr arg" and st: "stored d2f ?ty ?h1 arg = Some ?e'"
    by blast
  have dup1: "holds ?h1 l' as' es_d" by (rule holds_frame[OF dup]) simp_all
  have L1: "list_at ?h1 l' = Some L'" using L' by simp
  have st1: "stored d2f (l_type L') ?h1 arg = Some ?e'" using st ty' by simp
  have av1: "allocs (l_type L') \<le> avail ?h1" using av ty' by simp
  have len1: "int (length as') < INT_MAX" using len by simp
  from push_ok[OF dup1 L1 st1 av1 len1] obtain h2 L2 where
    push: "push d2f (Some l') arg ?h1 = Inr h2"
    and dup2: "holds h2 l' (as' @ [brk h]) (es_d @ [?e'])"
    and l2: "list_at h2 = (list_at h)(l' \<mapsto> L2)" and ty2: "l_type L2 = ?ty"
    and b2: "brk h2 = brk h + allocs ?ty" and a2: "avail h2 = avail h - allocs ?ty"
    and i2: "iter_at h2 = (iter_at h)(it \<mapsto> ?I1)" and s2: "stderr h2 = stderr h"
    and c2: "\<forall>q. q < brk h \<longrightarrow> cell_at h2 q = cell_at h q"
    and v2: "\<forall>a. a \<noteq> brk h \<longrightarrow> node_val h2 a = node_val h a"
    and n2: "\<forall>a. a \<notin> set as' \<longrightarrow> a \<noteq> brk h \<longrightarrow> node_at h2 a = node_at h a"
    and o2: "?ty \<noteq> T \<longrightarrow> node_val h2 (brk h) = Some (Suc (brk h))"
    using ty' by (auto simp: node_val_def)
  have step: "duplicate_loop d2f f2d l l' it h = duplicate_loop d2f f2d l l' it h2"
    using hn nx src1 da push by (simp add: duplicate_loop.simps[of d2f f2d l l' it h])
  have low: "\<And>x. x < b \<Longrightarrow> x \<notin> set as' \<and> x \<noteq> brk h"
    using priv bb by (auto simp: list_all_iff)
  have nodes_low: "\<And>x. x < b \<Longrightarrow> node_at h2 x = node_at h x"
    using low n2 by simp
  have inrest: "\<And>x. x \<in> set rest \<Longrightarrow> x < b" using rb by (auto simp: list_all_iff)
  have src2: "list_at h2 l = Some L" using l2 src ne by simp
  have it2: "iter_at h2 it = Some ?I1" using i2 by simp
  have "chain (node_at h2) (n_nextNode n) rest = chain (node_at h) (n_nextNode n) rest"
    using inrest nodes_low by (intro chain_same) simp
  with rest have ch2: "chain (node_at h2) (i_current ?I1) rest" by simp
  have rb2: "list_all (\<lambda>a. a < b) rest" using rb by simp
  have re2: "map (\<lambda>a. elem_of ?ty h2 (node_val h2 a)) rest = map Some es_r'"
  proof -
    have "\<And>x. x \<in> set rest \<Longrightarrow>
        elem_of ?ty h2 (node_val h2 x) = elem_of ?ty h (node_val h x)"
    proof -
      fix x assume x: "x \<in> set rest"
      then obtain k where k: "k < length rest" "x = rest ! k" by (auto simp: in_set_conv_nth)
      from re' have "length es_r' = length rest" by (metis length_map)
      with re' k have s: "elem_of ?ty h (node_val h x) = Some (es_r' ! k)" by (metis nth_map)
      then have "elem_of ?ty h2 (node_val h x) = Some (es_r' ! k)"
        by (rule elem_of_frame) (use c2 b2 in auto)
      moreover have "node_val h2 x = node_val h x" using v2 low inrest[OF x] by simp
      ultimately show "elem_of ?ty h2 (node_val h2 x) = elem_of ?ty h (node_val h x)"
        using s by simp
    qed
    then have "map (\<lambda>a. elem_of ?ty h2 (node_val h2 a)) rest =
        map (\<lambda>a. elem_of ?ty h (node_val h a)) rest" by (intro map_cong) simp_all
    with re' show ?thesis by simp
  qed
  have L2: "list_at h2 l' = Some L2" using l2 by simp
  have old_lt: "\<And>x. x \<in> set as' \<Longrightarrow> x \<noteq> brk h"
    using dup by (auto simp: holds_def list_all_iff)
  have priv2: "list_all (\<lambda>a. b \<le> a \<and> (?ty \<noteq> T \<longrightarrow> node_val h2 a = Some (Suc a))) (as' @ [brk h])"
    using priv bb o2 v2 old_lt by (auto simp: list_all_iff)
  have bb2: "b \<le> brk h2" using bb b2 by simp
  have idx2: "i_index ?I1 + int (length rest) \<le> INT_MAX" using idx by simp
  have av2: "allocs ?ty * length rest \<le> avail h2" using av a2 by simp
  have len2: "int (length (as' @ [brk h])) + int (length rest) \<le> INT_MAX" using len by simp
  from Cons.IH[OF src2 it2 ch2 rb2 re2 kinds' dup2 L2 ty2 ne priv2 bb2 idx2 av2 len2]
  obtain h' as'' where
    r: "duplicate_loop d2f f2d l l' it h2 = Inr h'"
    and hl: "holds h' l' ((as' @ [brk h]) @ as'')
               ((es_d @ [?e']) @ map (via_double d2f f2d) es_r')"
    and pv: "list_all (\<lambda>a. b \<le> a \<and> (?ty \<noteq> T \<longrightarrow> node_val h' a = Some (Suc a)))
               ((as' @ [brk h]) @ as'')"
    and fn: "\<forall>a. a < b \<longrightarrow> node_at h' a = node_at h2 a"
    and fc: "\<forall>q. q < brk h2 \<longrightarrow> cell_at h' q = cell_at h2 q"
    and fl: "\<forall>x. x \<noteq> l' \<longrightarrow> list_at h' x = list_at h2 x"
    and fb: "brk h2 \<le> brk h'" and fs: "stderr h' = stderr h2"
    and fi: "\<exists>I'. iter_at h' it = Some I'"
    and fL: "\<exists>L''. list_at h' l' = Some L'' \<and> l_type L'' = ?ty"
    by blast
  have "\<forall>a. a < b \<longrightarrow> node_at h' a = node_at h a" using fn nodes_low by simp
  moreover have "\<forall>q. q < brk h \<longrightarrow> cell_at h' q = cell_at h q" using fc c2 b2 by simp
  moreover have "\<forall>x. x \<noteq> l' \<longrightarrow> list_at h' x = list_at h x" using fl l2 by simp
  moreover have "brk h \<le> brk h'" using fb b2 by simp
  moreover have "stderr h' = stderr h" using fs s2 by simp
  ultimately show ?case
    using step r hl pv fi fL es_r
    by (intro exI[of _ h'] exI[of _ "brk h # as''"]) simp
qed

lemma one_float_built:
  assumes "d2f d = 7"
  shows "and_then (newList FLOAT (empty_heap 9)) (\<lambda>(l, h). push d2f (Some l) (DoubleArg d) h) =
     Inr one_float"
  using assms
  by (auto simp: one_float_def and_then_def newList_def malloc_def empty_heap_def push_def
      newNode_def underPush_def length_incr_def INT_MAX_def fun_eq_iff)

lemma holds_one_float: "holds one_float 0 [1] [Held (FloatC 7)]"
  by (simp add: holds_def is_list_def one_float_def elem_of_def node_val_def INT_MAX_def)

text \<open>
  C7: \<^verbatim>\<open>duplicate\<close> reads its argument through an iterator, so all it needs of the
  original is the chain of nodes from \<^verbatim>\<open>_head\<close> with readable elements of the list's
  kind (the tail pointer and the stored length are not looked at), at most \<^verbatim>\<open>INT_MAX\<close>
  nodes, and room in \<^verbatim>\<open>malloc\<close> for the list, the iterator and the nodes. It then
  returns a new, well-formed list of the same type whose elements are those of the
  original in the same order, each as \<^verbatim>\<open>push\<close> receives it: a float is promoted to
  \<^verbatim>\<open>double\<close> and narrowed again (\<open>via_double\<close>); when that gives back every float stored
  in the original, and always for the other types, the new list holds exactly the elements
  of the original. The original is left as it was. Whatever \<^verbatim>\<open>set\<close> then does to the
  new list (any index, any argument, whenever the call returns), the original still has
  its elements. For a list of type \<open>T\<close> the value pointers stored in the nodes of the new
  list are those stored in the nodes of the original.
\<close>

theorem duplicate_independent:
  assumes hl: "has_elems h l as es" and L: "list_at h l = Some L"
    and kinds: "list_all (of_kind (l_type L)) es"
    and mx: "int (length as) \<le> INT_MAX"
    and av: "2 + allocs (l_type L) * length as \<le> avail h"
  shows "\<exists>l' h' as' L'.
      duplicate d2f f2d (Some l) h = Inr (Some l', h') \<and> l' \<noteq> l \<and>
      list_at h' l' = Some L' \<and> l_type L' = l_type L \<and>
      holds h' l' as' (map (via_double d2f f2d) es) \<and>
      ((\<forall>f. Held (FloatC f) \<in> set es \<longrightarrow> d2f (f2d f) = f) \<longrightarrow> holds h' l' as' es) \<and>
      (l_type L \<noteq> FLOAT \<longrightarrow> holds h' l' as' es) \<and>
      list_at h' l = Some L \<and> has_elems h' l as es \<and>
      (l_type L = T \<longrightarrow> map (node_val h') as' = map (node_val h) as) \<and>
      (\<forall>i arg h''. set_l d2f (Some l') i arg h' = Inr h'' \<longrightarrow>
         list_at h'' l = Some L \<and> has_elems h'' l as es)"
proof -
  let ?ty = "l_type L"
  let ?l' = "brk h" and ?it = "Suc (brk h)"
  let ?L0 = "\<lparr>l_head = None, l_tail = None, l_type = ?ty, l_size = sizeof ?ty, l_length = 0\<rparr>"
  let ?I0 = "\<lparr>i_list = Some l, i_current = l_head L, i_index = 0\<rparr>"
  let ?h1 = "h\<lparr>brk := Suc (brk h), avail := avail h - 1,
              list_at := (list_at h)(?l' \<mapsto> ?L0)\<rparr>"
  let ?h2 = "?h1\<lparr>brk := Suc (Suc (brk h)), avail := avail h - 2,
              iter_at := (iter_at h)(?it \<mapsto> ?I0)\<rparr>"
  let ?es' = "map (via_double d2f f2d) es"
  from hl L have ch: "chain (node_at h) (l_head L) as" and lb: "l < brk h"
    and bound: "list_all (\<lambda>a. a < brk h) as"
    and el: "map (\<lambda>a. elem_of ?ty h (node_val h a)) as = map Some es"
    by (auto simp: has_elems_def)
  have ne: "?l' \<noteq> l" using lb by simp
  have nl: "newList ?ty h = Inr (?l', ?h1)"
    using av by (simp add: newList_def malloc_def)
  have ni: "newIterator (Some l) ?h1 = Inr (?it, ?h2)"
    using av L ne by (auto simp: newIterator_def malloc_def numeral_2_eq_2)
  have src2: "list_at ?h2 l = Some L" using L ne by simp
  have hl2: "has_elems ?h2 l as es" by (rule has_elems_frame[OF hl]) auto
  with src2 have re: "map (\<lambda>a. elem_of ?ty ?h2 (node_val ?h2 a)) as = map Some es"
    by (simp add: has_elems_def)
  have it2: "iter_at ?h2 ?it = Some ?I0" by simp
  have ch2: "chain (node_at ?h2) (i_current ?I0) as" using ch by simp
  have dup2: "holds ?h2 ?l' [] []"
    by (simp add: holds_def is_list_def INT_MAX_def)
  have L2: "list_at ?h2 ?l' = Some ?L0" by simp
  have ty0: "l_type ?L0 = ?ty" by simp
  have priv0: "list_all (\<lambda>a. brk h \<le> a \<and> (?ty \<noteq> T \<longrightarrow> node_val ?h2 a = Some (Suc a))) []"
    by simp
  have bb: "brk h \<le> brk ?h2" by simp
  have idx: "i_index ?I0 + int (length as) \<le> INT_MAX" using mx by simp
  have av2: "allocs ?ty * length as \<le> avail ?h2" using av by simp
  have len: "int (length ([]::addr list)) + int (length as) \<le> INT_MAX" using mx by simp
  from dup_loop_ok[OF src2 it2 ch2 bound re kinds dup2 L2 ty0 ne priv0 bb idx av2 len,
      of d2f f2d]
  obtain h3 as' I' L' where
    lp: "duplicate_loop d2f f2d l ?l' ?it ?h2 = Inr h3"
    and hl3: "holds h3 ?l' as' ?es'"
    and pv3: "list_all (\<lambda>a. brk h \<le> a \<and> (?ty \<noteq> T \<longrightarrow> node_val h3 a = Some (Suc a))) as'"
    and fn: "\<forall>a. a < brk h \<longrightarrow> node_at h3 a = node_at ?h2 a"
    and fc: "\<forall>q. q < brk ?h2 \<longrightarrow> cell_at h3 q = cell_at ?h2 q"
    and fl: "\<forall>x. x \<noteq> ?l' \<longrightarrow> list_at h3 x = list_at ?h2 x"
    and fb: "brk ?h2 \<le> brk h3"
    and I': "iter_at h3 ?it = Some I'"
    and L': "list_at h3 ?l' = Some L'" "l_type L' = ?ty"
    by auto
  let ?h4 = "h3\<lparr>iter_at := (iter_at h3)(?it := None)\<rparr>"
  have fi: "freeIterator (Some ?it) h3 = Inr ?h4" using I' by (simp add: freeIterator_def)
  have dp: "duplicate d2f f2d (Some l) h = Inr (Some ?l', ?h4)"
    using L nl ni lp fi by (simp add: duplicate_def)
  have hl4: "holds ?h4 ?l' as' ?es'" by (rule holds_frame[OF hl3]) simp_all
  have same: "(\<forall>f. Held (FloatC f) \<in> set es \<longrightarrow> d2f (f2d f) = f) \<longrightarrow> holds ?h4 ?l' as' es"
  proof
    assume "\<forall>f. Held (FloatC f) \<in> set es \<longrightarrow> d2f (f2d f) = f"
    then have "?es' = es" by (rule via_double_same)
    with hl4 show "holds ?h4 ?l' as' es" by simp
  qed
  have other: "?ty \<noteq> FLOAT \<longrightarrow> holds ?h4 ?l' as' es"
    using same of_kind_no_float[OF kinds, of d2f f2d] by blast
  have low4: "\<And>a. a < brk h \<Longrightarrow>
      list_at ?h4 a = list_at h a \<and> node_at ?h4 a = node_at h a \<and> cell_at ?h4 a = cell_at h a"
    using fn fc fl by simp
  have le4: "brk h \<le> brk ?h4" using fb by simp
  have src4: "has_elems ?h4 l as es" using hl low4 le4 by (rule has_elems_frame)
  have srcL: "list_at ?h4 l = Some L" using low4[OF lb] L by simp
  have L4: "list_at ?h4 ?l' = Some L'" using L' by simp
  have ptrs: "?ty = T \<longrightarrow> map (node_val ?h4) as' = map (node_val h) as"
  proof
    assume t: "?ty = T"
    with other have "holds ?h4 ?l' as' es" by simp
    with L4 L' have "map (\<lambda>a. elem_of ?ty ?h4 (node_val ?h4 a)) as' = map Some es"
      by (simp add: holds_def)
    with el t have "map (\<lambda>p. Some (Ref p)) (map (node_val ?h4) as') =
        map (\<lambda>p. Some (Ref p)) (map (node_val h) as)"
      by (simp add: elem_of_def comp_def)
    moreover have "inj (\<lambda>p::ptr. Some (Ref p))" by (simp add: inj_def)
    ultimately show "map (node_val ?h4) as' = map (node_val h) as"
      by (simp only: inj_map_eq_map)
  qed
  have immune: "\<forall>i arg h''. set_l d2f (Some ?l') i arg ?h4 = Inr h'' \<longrightarrow>
      list_at h'' l = Some L \<and> has_elems h'' l as es"
  proof (intro allI impI)
    fix i arg h''
    assume st: "set_l d2f (Some ?l') i arg ?h4 = Inr h''"
    from hl4 have wf4: "is_list ?h4 ?l' as'" by (simp add: holds_def)
    have pv4: "list_all (\<lambda>c. brk h \<le> c \<and>
        (l_type L' \<noteq> T \<longrightarrow> (\<exists>v. node_val ?h4 c = Some v \<and> brk h \<le> v))) as'"
      using pv3 L'(2) by (auto simp: list_all_iff node_val_def)
    from set_l_frame[OF wf4 L4 pv4 le4 st]
    have fr: "\<forall>a. a < brk h \<longrightarrow> node_at h'' a = node_at ?h4 a \<and> cell_at h'' a = cell_at ?h4 a"
      and ls: "list_at h'' = list_at ?h4" and bk: "brk ?h4 \<le> brk h''" by auto
    have low: "\<And>a. a < brk h \<Longrightarrow>
      list_at h'' a = list_at h a \<and> node_at h'' a = node_at h a \<and> cell_at h'' a = cell_at h a"
      using fr ls low4 by simp
    moreover have "brk h \<le> brk h''" using bk le4 by simp
    ultimately have "has_elems h'' l as es"
      using hl by (intro has_elems_frame[of h l as es h'']) auto
    moreover have "list_at h'' l = Some L" using low[OF lb] L by simp
    ultimately show "list_at h'' l = Some L \<and> has_elems h'' l as es" by simp
  qed
  from dp ne L4 L'(2) hl4 same other srcL src4 ptrs immune show ?thesis
    by (intro exI[of _ ?l'] exI[of _ ?h4] exI[of _ as'] exI[of _ L']) simp
qed

theorem duplicate_independent_witness:
  "has_elems stale_tail 0 [1, 3] [Held (IntC 1), Held (IntC 2)] \<and>
   (\<forall>as. \<not> is_list stale_tail 0 as) \<and>
   list_at stale_tail 0 =
     Some \<lparr>l_head = Some 1, l_tail = Some 1, l_type = INT_t, l_size = 4, l_length = 2\<rparr> \<and>
   list_all (of_kind INT_t) [Held (IntC 1), Held (IntC 2)] \<and>
   int (length [1, 3 :: addr]) \<le> INT_MAX \<and>
   2 + allocs INT_t * length [1, 3 :: addr] \<le> avail stale_tail \<and>
   (\<forall>d2f f2d. \<exists>l' h' as' L'.
      duplicate d2f f2d (Some 0) stale_tail = Inr (Some l', h') \<and> l' \<noteq> 0 \<and>
      list_at h' l' = Some L' \<and> l_type L' = INT_t \<and>
      holds h' l' as' [Held (IntC 1), Held (IntC 2)] \<and>
      has_elems h' 0 [1, 3] [Held (IntC 1), Held (IntC 2)] \<and>
      (\<forall>i arg h''. set_l d2f (Some l') i arg h' = Inr h'' \<longrightarrow>
         has_elems h'' 0 [1, 3] [Held (IntC 1), Held (IntC 2)])) \<and>
   has_elems two_refs 0 [1, 2] [Ref (Some 40), Ref (Some 41)] \<and>
   list_at two_refs 0 =
     Some \<lparr>l_head = Some 1, l_tail = Some 2, l_type = T, l_size = 8, l_length = 2\<rparr> \<and>
   list_all (of_kind T) [Ref (Some 40), Ref (Some 41)] \<and>
   int (length [1, 2 :: addr]) \<le> INT_MAX \<and>
   2 + allocs T * length [1, 2 :: addr] \<le> avail two_refs \<and>
   (\<forall>d2f f2d. \<exists>l' h' as' L'.
      duplicate d2f f2d (Some 0) two_refs = Inr (Some l', h') \<and> l' \<noteq> 0 \<and>
      list_at h' l' = Some L' \<and> l_type L' = T \<and>
      holds h' l' as' [Ref (Some 40), Ref (Some 41)] \<and>
      has_elems h' 0 [1, 2] [Ref (Some 40), Ref (Some 41)] \<and>
      map (node_val h') as' = [Some 40, Some 41] \<and>
      (\<forall>i arg h''. set_l d2f (Some l') i arg h' = Inr h'' \<longrightarrow>
         has_elems h'' 0 [1, 2] [Ref (Some 40), Ref (Some 41)])) \<and>
   has_elems one_float 0 [1] [Held (FloatC 7)] \<and>
   list_at one_float 0 =
     Some \<lparr>l_head = Some 1, l_tail = Some 1, l_type = FLOAT, l_size = 4, l_length = 1\<rparr> \<and>
   list_all (of_kind FLOAT) [Held (FloatC 7)] \<and>
   int (length [1 :: addr]) \<le> INT_MAX \<and>
   2 + allocs FLOAT * length [1 :: addr] \<le> avail one_float \<and>
   (\<forall>d2f f2d. \<exists>l' h' as' L'.
      duplicate d2f f2d (Some 0) one_float = Inr (Some l', h') \<and> l' \<noteq> 0 \<and>
      list_at h' l' = Some L' \<and> l_type L' = FLOAT \<and>
      holds h' l' as' [Held (FloatC (d2f (f2d 7)))] \<and>
      has_elems h' 0 [1] [Held (FloatC 7)] \<and>
      (\<forall>i arg h''. set_l d2f (Some l') i arg h' = Inr h'' \<longrightarrow>
         has_elems h'' 0 [1] [Held (FloatC 7)]))"
proof -
  let ?Ls = "\<lparr>l_head = Some 1, l_tail = Some 1, l_type = INT_t, l_size = 4, l_length = 2\<rparr>"
  let ?es = "[Held (IntC 1), Held (IntC 2)]"
  have s1: "has_elems stale_tail 0 [1, 3] ?es"
    by (simp add: has_elems_def stale_tail_def elem_of_def node_val_def)
  have s0: "\<forall>as. \<not> is_list stale_tail 0 as" by (simp add: not_is_list_stale_tail)
  have s2: "list_at stale_tail 0 = Some ?Ls" by (simp add: stale_tail_def)
  have s3: "list_all (of_kind (l_type ?Ls)) ?es" by simp
  have s4: "int (length [1, 3 :: addr]) \<le> INT_MAX" by (simp add: INT_MAX_def)
  have s5: "2 + allocs (l_type ?Ls) * length [1, 3 :: addr] \<le> avail stale_tail"
    by (simp add: allocs_def stale_tail_def)
  let ?Lt = "\<lparr>l_head = Some 1, l_tail = Some 2, l_type = T, l_size = 8, l_length = 2\<rparr>"
  let ?rs = "[Ref (Some 40), Ref (Some 41)]"
  have t1: "has_elems two_refs 0 [1, 2] ?rs"
    by (simp add: has_elems_def two_refs_def elem_of_def node_val_def)
  have t2: "list_at two_refs 0 = Some ?Lt" by (simp add: two_refs_def)
  have t3: "list_all (of_kind (l_type ?Lt)) ?rs" by simp
  have t4: "int (length [1, 2 :: addr]) \<le> INT_MAX" by (simp add: INT_MAX_def)
  have t5: "2 + allocs (l_type ?Lt) * length [1, 2 :: addr] \<le> avail two_refs"
    by (simp add: allocs_def two_refs_def)
  have t6: "map (node_val two_refs) [1, 2] = [Some 40, Some 41]"
    by (simp add: node_val_def two_refs_def)
  let ?Lf = "\<lparr>l_head = Some 1, l_tail = Some 1, l_type = FLOAT, l_size = 4, l_length = 1\<rparr>"
  let ?fs = "[Held (FloatC 7)]"
  have f1: "has_elems one_float 0 [1] ?fs"
    by (simp add: has_elems_def one_float_def elem_of_def node_val_def)
  have f2: "list_at one_float 0 = Some ?Lf" by (simp add: one_float_def)
  have f3: "list_all (of_kind (l_type ?Lf)) ?fs" by simp
  have f4: "int (length [1 :: addr]) \<le> INT_MAX" by (simp add: INT_MAX_def)
  have f5: "2 + allocs (l_type ?Lf) * length [1 :: addr] \<le> avail one_float"
    by (simp add: allocs_def one_float_def)
  have S: "\<forall>d2f f2d. \<exists>l' h' as' L'.
      duplicate d2f f2d (Some 0) stale_tail = Inr (Some l', h') \<and> l' \<noteq> 0 \<and>
      list_at h' l' = Some L' \<and> l_type L' = INT_t \<and>
      holds h' l' as' ?es \<and> has_elems h' 0 [1, 3] ?es \<and>
      (\<forall>i arg h''. set_l d2f (Some l') i arg h' = Inr h'' \<longrightarrow> has_elems h'' 0 [1, 3] ?es)"
  proof (intro allI)
    fix d2f f2d
    from duplicate_independent[OF s1 s2 s3 s4 s5, of d2f f2d]
    obtain l' h' as' L' where
      "duplicate d2f f2d (Some 0) stale_tail = Inr (Some l', h')" "l' \<noteq> 0"
      "list_at h' l' = Some L'" "l_type L' = INT_t"
      "holds h' l' as' ?es" "has_elems h' 0 [1, 3] ?es"
      "\<forall>i arg h''. set_l d2f (Some l') i arg h' = Inr h'' \<longrightarrow> has_elems h'' 0 [1, 3] ?es"
      by auto
    then show "\<exists>l' h' as' L'.
      duplicate d2f f2d (Some 0) stale_tail = Inr (Some l', h') \<and> l' \<noteq> 0 \<and>
      list_at h' l' = Some L' \<and> l_type L' = INT_t \<and>
      holds h' l' as' ?es \<and> has_elems h' 0 [1, 3] ?es \<and>
      (\<forall>i arg h''. set_l d2f (Some l') i arg h' = Inr h'' \<longrightarrow> has_elems h'' 0 [1, 3] ?es)"
      by - (rule exI[of _ l'], rule exI[of _ h'], rule exI[of _ as'], rule exI[of _ L'],
          intro conjI, assumption+)
  qed
  have R: "\<forall>d2f f2d. \<exists>l' h' as' L'.
      duplicate d2f f2d (Some 0) two_refs = Inr (Some l', h') \<and> l' \<noteq> 0 \<and>
      list_at h' l' = Some L' \<and> l_type L' = T \<and>
      holds h' l' as' ?rs \<and> has_elems h' 0 [1, 2] ?rs \<and>
      map (node_val h') as' = [Some 40, Some 41] \<and>
      (\<forall>i arg h''. set_l d2f (Some l') i arg h' = Inr h'' \<longrightarrow> has_elems h'' 0 [1, 2] ?rs)"
  proof (intro allI)
    fix d2f f2d
    from duplicate_independent[OF t1 t2 t3 t4 t5, of d2f f2d] t6
    obtain l' h' as' L' where
      "duplicate d2f f2d (Some 0) two_refs = Inr (Some l', h')" "l' \<noteq> 0"
      "list_at h' l' = Some L'" "l_type L' = T"
      "holds h' l' as' ?rs" "has_elems h' 0 [1, 2] ?rs"
      "map (node_val h') as' = [Some 40, Some 41]"
      "\<forall>i arg h''. set_l d2f (Some l') i arg h' = Inr h'' \<longrightarrow> has_elems h'' 0 [1, 2] ?rs"
      by auto
    then show "\<exists>l' h' as' L'.
      duplicate d2f f2d (Some 0) two_refs = Inr (Some l', h') \<and> l' \<noteq> 0 \<and>
      list_at h' l' = Some L' \<and> l_type L' = T \<and>
      holds h' l' as' ?rs \<and> has_elems h' 0 [1, 2] ?rs \<and>
      map (node_val h') as' = [Some 40, Some 41] \<and>
      (\<forall>i arg h''. set_l d2f (Some l') i arg h' = Inr h'' \<longrightarrow> has_elems h'' 0 [1, 2] ?rs)"
      by - (rule exI[of _ l'], rule exI[of _ h'], rule exI[of _ as'], rule exI[of _ L'],
          intro conjI, assumption+)
  qed
  have F: "\<forall>d2f f2d. \<exists>l' h' as' L'.
      duplicate d2f f2d (Some 0) one_float = Inr (Some l', h') \<and> l' \<noteq> 0 \<and>
      list_at h' l' = Some L' \<and> l_type L' = FLOAT \<and>
      holds h' l' as' [Held (FloatC (d2f (f2d 7)))] \<and> has_elems h' 0 [1] ?fs \<and>
      (\<forall>i arg h''. set_l d2f (Some l') i arg h' = Inr h'' \<longrightarrow> has_elems h'' 0 [1] ?fs)"
  proof (intro allI)
    fix d2f :: "cdouble \<Rightarrow> cfloat" and f2d :: "cfloat \<Rightarrow> cdouble"
    from duplicate_independent[OF f1 f2 f3 f4 f5, of d2f f2d]
    obtain l' h' as' L' where
      "duplicate d2f f2d (Some 0) one_float = Inr (Some l', h')" "l' \<noteq> 0"
      "list_at h' l' = Some L'" "l_type L' = FLOAT"
      "holds h' l' as' [Held (FloatC (d2f (f2d 7)))]" "has_elems h' 0 [1] ?fs"
      "\<forall>i arg h''. set_l d2f (Some l') i arg h' = Inr h'' \<longrightarrow> has_elems h'' 0 [1] ?fs"
      by auto
    then show "\<exists>l' h' as' L'.
      duplicate d2f f2d (Some 0) one_float = Inr (Some l', h') \<and> l' \<noteq> 0 \<and>
      list_at h' l' = Some L' \<and> l_type L' = FLOAT \<and>
      holds h' l' as' [Held (FloatC (d2f (f2d 7)))] \<and> has_elems h' 0 [1] ?fs \<and>
      (\<forall>i arg h''. set_l d2f (Some l') i arg h' = Inr h'' \<longrightarrow> has_elems h'' 0 [1] ?fs)"
      by - (rule exI[of _ l'], rule exI[of _ h'], rule exI[of _ as'], rule exI[of _ L'],
          intro conjI, assumption+)
  qed
  have s3': "list_all (of_kind INT_t) ?es" and t3': "list_all (of_kind T) ?rs"
    and f3': "list_all (of_kind FLOAT) ?fs" by simp_all
  have s5': "2 + allocs INT_t * length [1, 3 :: addr] \<le> avail stale_tail"
    and t5': "2 + allocs T * length [1, 2 :: addr] \<le> avail two_refs"
    and f5': "2 + allocs FLOAT * length [1 :: addr] \<le> avail one_float"
    using s5 t5 f5 by simp_all
  from s1 s0 s2 s3' s4 s5' S t1 t2 t3' t4 t5' R f1 f2 f3' f4 f5' F show ?thesis
    by - (intro conjI, assumption+)
qed

text \<open>
  An instance run in full, for any conversions between \<^verbatim>\<open>float\<close> and \<^verbatim>\<open>double\<close>: the
  FLOAT list of \<open>one_float\<close> is duplicated and the copy's element is overwritten with the
  \<^verbatim>\<open>double\<close> of bit pattern 9. The original still reads its own element where the copy
  reads the narrowed argument, from different storage.
\<close>

lemma duplicate_then_set_example:
  "and_then (duplicate d2f f2d (Some 0) one_float) (\<lambda>(copy, h1).
     and_then (set_l d2f copy 0 (DoubleArg 9) h1) (\<lambda>h2.
     and_then (get (Some 0) 0 h2) (\<lambda>(p, h3).
     and_then (get copy 0 h3) (\<lambda>(q, h4).
       Inr (elem_of FLOAT h4 p, elem_of FLOAT h4 q, p = q))))) =
   Inr (Some (Held (FloatC 7)), Some (Held (FloatC (d2f 9))), False)"
  by (simp add: and_then_def one_float_def duplicate_def newList_def newIterator_def malloc_def
      duplicate_loop.simps hasNext_def next_it_def dup_arg_def push_def newNode_def
      underPush_def length_incr_def INT_MAX_def freeIterator_def set_l_def set_loop.simps
      set_value_def memcpy_val_def get_def get_loop.simps elem_of_def)

section \<open>Where the code leaves the specification\<close>

text \<open>
  C1: the invariant of the list (the tail pointer is the last reachable node, and is set
  whenever the length is positive) does not survive \<^verbatim>\<open>insert\<close>. \<^verbatim>\<open>underInsert\<close> never
  writes \<^verbatim>\<open>_tail\<close>: after \<^verbatim>\<open>insert(0, 7)\<close> on a new list the length is 1, the head is set
  and the tail is still \<^verbatim>\<open>NULL\<close>, so no sequence of nodes makes the list well formed.
\<close>

theorem insert_leaves_tail_unset:
  "\<exists>l h. and_then (newList INT_t (empty_heap 3))
            (\<lambda>(l, h0). and_then (insert_l d2f (Some l) 0 (IntArg 7) h0)
               (\<lambda>h. Inr (l, h))) = Inr (l, h) \<and>
     (\<exists>L. list_at h l = Some L \<and> l_length L = 1 \<and> l_head L \<noteq> None \<and> l_tail L = None) \<and>
     (\<forall>as. \<not> is_list h l as)"
  by (simp add: and_then_def newList_def malloc_def empty_heap_def insert_l_def len_def
      va_value.simps newNode_def underInsert_def length_incr_def INT_MAX_def is_list_def)

text \<open>
  Insertion at the front does what it should: after \<^verbatim>\<open>insert(0, v)\<close>, \<^verbatim>\<open>get(0)\<close>
  returns the element stored for \<open>v\<close>.
\<close>

lemma insert_front_get:
  assumes L: "list_at h l = Some L" and len: "0 \<le> l_length L" "l_length L < INT_MAX"
    and st: "stored d2f (l_type L) h arg = Some e" and av: "allocs (l_type L) \<le> avail h"
  shows "\<exists>h1 p. insert_l d2f (Some l) 0 arg h = Inr h1 \<and> get (Some l) 0 h1 = Inr (p, h1) \<and>
           elem_of (l_type L) h1 p = Some e"
proof -
  from newNode_ok[OF st av, of "l_size L"] obtain val pv h1 where
    va: "va_value d2f (l_type L) arg = Inr val"
    and nn: "newNode val (l_size L) (l_type L) h = Inr (brk h, h1)"
    and n1: "node_at h1 = (node_at h)(brk h \<mapsto> \<lparr>n_val = pv, n_nextNode = None\<rparr>)"
    and l1: "list_at h1 = list_at h"
    and pv: "elem_of (l_type L) h1 pv = Some e"
    by blast
  let ?h2 = "h1\<lparr>node_at := (node_at h1)(brk h \<mapsto> \<lparr>n_val = pv, n_nextNode = l_head L\<rparr>),
               list_at := (list_at h1)(l \<mapsto> L\<lparr>l_head := Some (brk h), l_length := l_length L + 1\<rparr>)\<rparr>"
  have ui: "underInsert l 0 (brk h) h1 = Inr ?h2"
    using L l1 n1 len by (simp add: underInsert_def length_incr_def)
  have ins: "insert_l d2f (Some l) 0 arg h = Inr ?h2"
    using L len va nn ui by (simp add: insert_l_def len_def)
  have g: "get (Some l) 0 ?h2 = Inr (pv, ?h2)"
    by (simp add: get_def get_loop.simps[of 0 "Some (brk h)"])
  have "elem_of (l_type L) ?h2 pv = elem_of (l_type L) h1 pv"
    by (rule elem_of_same) simp_all
  with pv have ev: "elem_of (l_type L) ?h2 pv = Some e" by simp
  show ?thesis
  proof (intro exI conjI)
    show "insert_l d2f (Some l) 0 arg h = Inr ?h2" by (rule ins)
    show "get (Some l) 0 ?h2 = Inr (pv, ?h2)" by (rule g)
    show "elem_of (l_type L) ?h2 pv = Some e" by (rule ev)
  qed
qed

text \<open>
  C2: \<^verbatim>\<open>insert(len, v)\<close> is not \<^verbatim>\<open>push(v)\<close>. On the list holding 1, \<^verbatim>\<open>insert(1, 2)\<close>
  followed by \<^verbatim>\<open>push(3)\<close> leaves 3 at index 1, the inserted node being cut off by the push
  through the stale tail pointer; \<^verbatim>\<open>push(2)\<close> followed by \<^verbatim>\<open>push(3)\<close> leaves 2 there.
\<close>

theorem insert_at_len_then_push_loses_element:
  "and_then (newList INT_t (empty_heap 9)) (\<lambda>(l, h0).
     and_then (push d2f (Some l) (IntArg 1) h0) (\<lambda>h1.
     and_then (insert_l d2f (Some l) 1 (IntArg 2) h1) (\<lambda>h2.
     and_then (push d2f (Some l) (IntArg 3) h2) (\<lambda>h3.
     and_then (get (Some l) 1 h3) (\<lambda>(p, h4). Inr (elem_of INT_t h4 p))))))
     = Inr (Some (Held (IntC 3))) \<and>
   and_then (newList INT_t (empty_heap 9)) (\<lambda>(l, h0).
     and_then (push d2f (Some l) (IntArg 1) h0) (\<lambda>h1.
     and_then (push d2f (Some l) (IntArg 2) h1) (\<lambda>h2.
     and_then (push d2f (Some l) (IntArg 3) h2) (\<lambda>h3.
     and_then (get (Some l) 1 h3) (\<lambda>(p, h4). Inr (elem_of INT_t h4 p))))))
     = Inr (Some (Held (IntC 2)))"
  by (simp add: and_then_def newList_def malloc_def empty_heap_def insert_l_def len_def
      push_def underPush_def newNode_def underInsert_def underInsert_loop.simps
      length_incr_def INT_MAX_def get_def get_loop.simps elem_of_def)

text \<open>
  An index that is negative or not below the length of a well-formed list is rejected by
  \<^verbatim>\<open>get\<close>, \<^verbatim>\<open>set\<close>, \<^verbatim>\<open>pick\<close> and \<^verbatim>\<open>insert\<close> (for \<^verbatim>\<open>insert\<close>: above the
  length), and by \<^verbatim>\<open>remove\<close> unless the index is 0: the store is the given one with one
  more line on \<^verbatim>\<open>stderr\<close>, or unchanged for \<^verbatim>\<open>pick(0)\<close> on the empty list. Index 0
  on the empty list is the one case \<^verbatim>\<open>remove\<close> does not survive.
\<close>

lemma loops_past_end:
  assumes "chain (node_at h) cur as" and "0 \<le> x" and "x + int (length as) \<le> i"
    and "i \<le> INT_MAX"
  shows "get_loop i cur x h = Inr (None, report (OutOfBounds ''get'' i (x + int (length as))) h)"
    and "set_loop d2f l i arg cur x h = Inr (report (OutOfBounds ''set'' i (x + int (length as))) h)"
    and "pick_loop l i cur x h =
           Inr (None, report (OutOfBounds ''pick'' i (x + int (length as))) h)"
    and "\<exists>k. delete_loop l i cur x h = Inr (report (OutOfBounds ''delete'' i k) h)"
  using assms
proof (induction as arbitrary: cur x)
  case Nil
  {
    case 1 then show ?case by (simp add: get_loop.simps[of i None])
  next
    case 2 then show ?case by (simp add: set_loop.simps[of d2f l i arg None])
  next
    case 3 then show ?case by (simp add: pick_loop.simps[of l i None])
  next
    case 4 then show ?case by (auto simp: delete_loop.simps[of l i None])
  }
next
  case (Cons a as)
  {
    case 1
    then obtain n where cur: "cur = Some a" and n: "node_at h a = Some n"
      and rest: "chain (node_at h) (n_nextNode n) as" by auto
    from 1 have "x \<noteq> i" "\<not> INT_MAX \<le> x" "0 \<le> x + 1" "x + 1 + int (length as) \<le> i" by auto
    with Cons.IH(1)[OF rest _ _ 1(4), of "x + 1"] cur n show ?case
      by (simp add: get_loop.simps[of i "Some a"] ac_simps)
  next
    case 2
    then obtain n where cur: "cur = Some a" and n: "node_at h a = Some n"
      and rest: "chain (node_at h) (n_nextNode n) as" by auto
    from 2 have "x \<noteq> i" "\<not> INT_MAX \<le> x" "0 \<le> x + 1" "x + 1 + int (length as) \<le> i" by auto
    with Cons.IH(2)[OF rest _ _ 2(4), of "x + 1"] cur n show ?case
      by (simp add: set_loop.simps[of d2f l i arg "Some a"] ac_simps)
  next
    case 3
    then obtain n where cur: "cur = Some a" and n: "node_at h a = Some n"
      and rest: "chain (node_at h) (n_nextNode n) as" by auto
    from 3 have x: "\<not> INT_MAX \<le> x" "0 \<le> x + 1" "x + 1 + int (length as) \<le> i" by auto
    have "\<not> (x = i - 1 \<and> n_nextNode n \<noteq> None)"
    proof
      assume c: "x = i - 1 \<and> n_nextNode n \<noteq> None"
      with x have "as = []" by simp
      with rest c show False by simp
    qed
    with Cons.IH(3)[OF rest _ _ 3(4), of "x + 1"] x cur n show ?case
      by (auto simp: pick_loop.simps[of l i "Some a"] ac_simps)
  next
    case 4
    then obtain n where cur: "cur = Some a" and n: "node_at h a = Some n"
      and rest: "chain (node_at h) (n_nextNode n) as" by auto
    from 4 have x: "\<not> INT_MAX \<le> x" "0 \<le> x + 1" "x + 1 + int (length as) \<le> i" by auto
    show ?case
    proof (cases "i - 1 = x \<and> i \<noteq> 0")
      case True
      with x have "int (length as) \<le> 0" by linarith
      then have "as = []" by simp
      with rest have "n_nextNode n = None" by simp
      with True cur n show ?thesis
        by (auto simp: delete_loop.simps[of l i "Some a"])
    next
      case False
      with Cons.IH(4)[OF rest _ _ 4(4), of "x + 1"] x cur n show ?thesis
        by (auto simp: delete_loop.simps[of l i "Some a"])
    qed
  }
qed

lemma rejected_index_unchanged:
  assumes "is_list h l as" and "list_at h l = Some L"
    and "i < 0 \<or> int (length as) \<le> i" and "i \<le> INT_MAX"
  shows "\<exists>d. get (Some l) i h = Inr (None, report d h)"
    and "\<exists>d. set_l d2f (Some l) i arg h = Inr (report d h)"
    and "i \<noteq> 0 \<Longrightarrow> \<exists>d. pick (Some l) i h = Inr (None, report d h)"
    and "i = 0 \<Longrightarrow> pick (Some l) i h = Inr (None, h)"
    and "i \<noteq> 0 \<Longrightarrow> \<exists>d. delete (Some l) i h = Inr (report d h)"
    and "i = 0 \<Longrightarrow> delete (Some l) i h = Inl NullDeref"
    and "i < 0 \<or> int (length as) < i \<Longrightarrow> \<exists>d. insert_l d2f (Some l) i arg h = Inr (report d h)"
proof -
  from assms(1,2) have ch: "chain (node_at h) (l_head L) as" and ln: "l_length L = int (length as)"
    by (auto simp: is_list_def)
  show "\<exists>d. get (Some l) i h = Inr (None, report d h)"
    using assms loops_past_end(1)[OF ch, of 0 i] by (auto simp: get_def)
  show "\<exists>d. set_l d2f (Some l) i arg h = Inr (report d h)"
    using assms loops_past_end(2)[OF ch, of 0 i] by (auto simp: set_l_def)
  show "\<exists>d. pick (Some l) i h = Inr (None, report d h)" if "i \<noteq> 0"
    using that assms loops_past_end(3)[OF ch, of 0 i] by (auto simp: pick_def)
  show "pick (Some l) i h = Inr (None, h)" if "i = 0"
    using that assms ch by (auto simp: pick_def pop_def)
  show "\<exists>d. delete (Some l) i h = Inr (report d h)" if "i \<noteq> 0"
    using that assms loops_past_end(4)[OF ch, of 0 i] by (auto simp: delete_def)
  show "delete (Some l) i h = Inl NullDeref" if "i = 0"
    using that assms ch by (auto simp: delete_def)
  show "\<exists>d. insert_l d2f (Some l) i arg h = Inr (report d h)"
    if "i < 0 \<or> int (length as) < i"
    using that assms(2) ln by (auto simp: insert_l_def len_def)
qed

text \<open>
  C3: \<^verbatim>\<open>remove(0)\<close> on an empty list, an index out of range, is not rejected: \<^verbatim>\<open>delete\<close>
  reads \<^verbatim>\<open>temp->_nextNode\<close> with \<^verbatim>\<open>temp\<close> the \<^verbatim>\<open>NULL\<close> head.
\<close>

theorem delete_on_empty_list_crashes:
  "and_then (newList INT_t (empty_heap 1)) (\<lambda>(l, h). delete (Some l) 0 h) = Inl NullDeref"
  by (simp add: and_then_def newList_def malloc_def empty_heap_def delete_def)

text \<open>
  C8: \<^verbatim>\<open>len\<close> on a \<^verbatim>\<open>NULL\<close> list prints its message and then reads \<^verbatim>\<open>this->_length\<close>
  all the same.
\<close>

theorem len_null_crashes: "len None h = Inl NullDeref"
  by (simp add: len_def)

text \<open>
  C9: \<^verbatim>\<open>set\<close> on a STRING list does not check its string argument. With \<^verbatim>\<open>NULL\<close> it
  frees the old buffer and then calls \<^verbatim>\<open>strlen(NULL)\<close>, where \<^verbatim>\<open>push\<close> and \<^verbatim>\<open>insert\<close>
  stop with \<^verbatim>\<open>exit(EXIT_FAILURE)\<close> in \<^verbatim>\<open>newNode\<close>.
\<close>

theorem set_null_string_crashes:
  "and_then (newList STRING ((empty_heap 9)\<lparr>cell_at := [0 \<mapsto> StrC ''a''], brk := 1\<rparr>))
     (\<lambda>(l, h0). and_then (push d2f (Some l) (PtrArg (Some 0)) h0)
        (\<lambda>h1. set_l d2f (Some l) 0 (PtrArg None) h1)) = Inl NullDeref \<and>
   and_then (newList STRING ((empty_heap 9)\<lparr>cell_at := [0 \<mapsto> StrC ''a''], brk := 1\<rparr>))
     (\<lambda>(l, h0). and_then (push d2f (Some l) (PtrArg (Some 0)) h0)
        (\<lambda>h1. push d2f (Some l) (PtrArg None) h1)) = Inl ExitFailure \<and>
   and_then (newList STRING ((empty_heap 9)\<lparr>cell_at := [0 \<mapsto> StrC ''a''], brk := 1\<rparr>))
     (\<lambda>(l, h0). and_then (push d2f (Some l) (PtrArg (Some 0)) h0)
        (\<lambda>h1. insert_l d2f (Some l) 0 (PtrArg None) h1)) = Inl ExitFailure"
  by (simp add: and_then_def newList_def malloc_def empty_heap_def insert_l_def len_def
      push_def underPush_def newNode_def length_incr_def INT_MAX_def set_l_def
      set_loop.simps set_value_def free_val_def)

end
